theory Spec2Isabelle
  imports Main "HOL-Library.AList"
begin

section \<open>Health metrics (bot.js, lines 42-78)\<close>

text \<open>
  The counters of the \<^verbatim>\<open>metrics\<close> object. The three clock readings of the object
  (\<^verbatim>\<open>startTime\<close>, \<^verbatim>\<open>lastTxTime\<close>, \<^verbatim>\<open>lastHeartbeat\<close>) are values of
  \<^verbatim>\<open>Date.now()\<close>; they are written but never read by the code modelled here and are
  left out. The counters are JavaScript numbers that only ever grow by one from zero,
  so they are natural numbers (the 2^53 limit of exact doubles is out of reach).
\<close>

record metrics =
  totalTransactions :: nat
  successfulTx :: nat
  failedTx :: nat
  rpcFailures :: nat
  wsReconnections :: nat
  consecutiveFailures :: nat
  processingLockResets :: nat

definition metrics_init :: metrics where
  "metrics_init =
     \<lparr>totalTransactions = 0, successfulTx = 0, failedTx = 0, rpcFailures = 0,
      wsReconnections = 0, consecutiveFailures = 0, processingLockResets = 0\<rparr>"

text \<open>
  \<^verbatim>\<open>updateMetrics(type, success = true)\<close>: a \<^verbatim>\<open>switch\<close> on the string with no default
  branch, so any other string changes nothing.
\<close>

definition updateMetrics :: "string \<Rightarrow> bool \<Rightarrow> metrics \<Rightarrow> metrics" where
  "updateMetrics type success m =
     (if type = ''transaction'' then
        (let m1 = m\<lparr>totalTransactions := totalTransactions m + 1\<rparr>
         in if success
            then m1\<lparr>successfulTx := successfulTx m1 + 1, consecutiveFailures := 0\<rparr>
            else m1\<lparr>failedTx := failedTx m1 + 1,
                    consecutiveFailures := consecutiveFailures m1 + 1\<rparr>)
      else if type = ''rpc_failure'' then m\<lparr>rpcFailures := rpcFailures m + 1\<rparr>
      else if type = ''reconnection'' then m\<lparr>wsReconnections := wsReconnections m + 1\<rparr>
      else if type = ''lock_reset'' then
        m\<lparr>processingLockResets := processingLockResets m + 1\<rparr>
      else m)"

text \<open>A sequence of calls, each given by its two arguments, applied in order.\<close>

fun updateMetrics_calls :: "(string \<times> bool) list \<Rightarrow> metrics \<Rightarrow> metrics" where
  "updateMetrics_calls [] m = m"
| "updateMetrics_calls ((type, success) # cs) m =
     updateMetrics_calls cs (updateMetrics type success m)"

section \<open>Endpoint pool (bot.js, class MultiRpcProvider)\<close>

text \<open>
  An entry of \<^verbatim>\<open>this.latencies\<close>: a difference of two \<^verbatim>\<open>Date.now()\<close> readings
  in milliseconds, or \<^verbatim>\<open>Infinity\<close> for an endpoint whose measurement failed.
\<close>

datatype latency = Ms int | Infinity

fun lat_le :: "latency \<Rightarrow> latency \<Rightarrow> bool" where
  "lat_le _ Infinity = True"
| "lat_le Infinity (Ms _) = False"
| "lat_le (Ms a) (Ms b) = (a \<le> b)"

definition lat_min :: "latency \<Rightarrow> latency \<Rightarrow> latency" where
  "lat_min a b = (if lat_le a b then a else b)"

text \<open>\<^verbatim>\<open>Math.min(...xs)\<close>; with no argument it is \<^verbatim>\<open>Infinity\<close>.\<close>

fun Math_min :: "latency list \<Rightarrow> latency" where
  "Math_min [] = Infinity"
| "Math_min (x # xs) = lat_min x (Math_min xs)"

text \<open>\<^verbatim>\<open>Array.prototype.indexOf\<close>: the first index holding the value, or -1.\<close>

fun indexOf :: "'a list \<Rightarrow> 'a \<Rightarrow> int" where
  "indexOf [] v = -1"
| "indexOf (x # xs) v =
     (if x = v then 0 else (let r = indexOf xs v in if r < 0 then -1 else r + 1))"

record pool =
  latencies :: "latency list"
  currentIndex :: int

text \<open>
  What \<^verbatim>\<open>selectBestProvider\<close> lets the rest of the program see: the log line
  for a total outage, or the \<^verbatim>\<open>providerChanged\<close> event (its argument is the provider
  at the new index, given here by that index).
\<close>

datatype signal = AllUnavailable | ProviderChanged int

definition selectBestProvider :: "pool \<Rightarrow> pool \<times> signal list" where
  "selectBestProvider p =
     (let minLatency = Math_min (latencies p)
      in if minLatency = Infinity then (p, [AllUnavailable])
         else (let p' = p\<lparr>currentIndex := indexOf (latencies p) minLatency\<rparr>
               in (p', [ProviderChanged (currentIndex p')])))"

text \<open>
  \<^verbatim>\<open>callWithFallback(fn)\<close>. An endpoint is its index in \<^verbatim>\<open>this.providers\<close>, and
  \<open>n\<close> is \<^verbatim>\<open>this.providers.length\<close>; \<open>fn i\<close> is what \<^verbatim>\<open>await fn(this.providers[i])\<close>
  does: \<open>Inr v\<close> when it resolves to \<open>v\<close>, \<open>Inl msg\<close> when it rejects with an error
  of that message. With no endpoint at all the loop body never runs and the function
  returns \<^verbatim>\<open>undefined\<close>.
\<close>

datatype 'a outcome = Returned 'a | ReturnedUndefined | Thrown string

function callWithFallback_from ::
  "(nat \<Rightarrow> string + 'a) \<Rightarrow> nat \<Rightarrow> nat \<Rightarrow> metrics \<Rightarrow> 'a outcome \<times> metrics" where
  "callWithFallback_from fn n i m =
     (if i < n then
        (case fn i of
           Inr v \<Rightarrow> (Returned v, m)
         | Inl err \<Rightarrow>
             (let m' = updateMetrics ''rpc_failure'' True m
              in if i = n - 1 then (Thrown err, m')
                 else callWithFallback_from fn n (i + 1) m'))
      else (ReturnedUndefined, m))"
  by pat_completeness auto
termination
  by (relation "measure (\<lambda>(fn, n, i, m). n - i)") auto

definition callWithFallback ::
  "(nat \<Rightarrow> string + 'a) \<Rightarrow> nat \<Rightarrow> metrics \<Rightarrow> 'a outcome \<times> metrics" where
  "callWithFallback fn n m = callWithFallback_from fn n 0 m"

section \<open>Strings\<close>

text \<open>
  \<^verbatim>\<open>String.prototype.toLowerCase\<close> on the ASCII letters (token addresses are
  hexadecimal strings) and \<^verbatim>\<open>String.prototype.includes\<close>.
\<close>

definition lower_char :: "char \<Rightarrow> char" where
  "lower_char c =
     (case map_of (zip ''ABCDEFGHIJKLMNOPQRSTUVWXYZ'' ''abcdefghijklmnopqrstuvwxyz'') c of
        Some l \<Rightarrow> l
      | None \<Rightarrow> c)"

definition toLowerCase :: "string \<Rightarrow> string" where
  "toLowerCase str = map lower_char str"

fun starts_with :: "string \<Rightarrow> string \<Rightarrow> bool" where
  "starts_with _ [] = True"
| "starts_with [] (_ # _) = False"
| "starts_with (x # xs) (y # ys) = (x = y \<and> starts_with xs ys)"

fun str_includes :: "string \<Rightarrow> string \<Rightarrow> bool" where
  "str_includes [] sub = (sub = [])"
| "str_includes (x # xs) sub = (starts_with (x # xs) sub \<or> str_includes xs sub)"

section \<open>Program state\<close>

record token_info =
  decimals :: nat
  symbol :: string

text \<open>
  What the program does to the outside, in the order it does it: the lines it logs, the
  messages it hands to \<^verbatim>\<open>telegramNotify\<close>, the transactions an endpoint accepted
  from \<^verbatim>\<open>sendTransaction\<close> (with the nonce, gas price and gas limit of the signed
  transaction, and the hash returned) and the waits of \<^verbatim>\<open>delay\<close>. The only
  \<^verbatim>\<open>debugLog\<close> line kept is the one of the \<^verbatim>\<open>catch\<close> block, which marks a failed
  attempt.
\<close>

datatype effect =
    Log_TokenNotFound string
  | Log_Tx string string nat
  | Log_Confirmed string string
  | Log_InsufficientFunds
  | Log_Failed string nat
  | Log_LockReset nat
  | Debug_AttemptFailed string nat string
  | Sent nat nat nat string
  | Notify_Success string nat string
  | Notify_InsufficientFunds
  | Notify_Alert nat
  | Notify_Failed string nat
  | Delay nat

text \<open>
  The module-level state: the \<^verbatim>\<open>tokenProcessing\<close> map (a JavaScript \<^verbatim>\<open>Map\<close>
  keeps insertion order, so it is an association list), \<^verbatim>\<open>tokenContracts\<close>, the three
  fields of \<^verbatim>\<open>txQueue\<close> (a job is its \<^verbatim>\<open>tokenAddress\<close>; \<^verbatim>\<open>null\<close> is \<open>None\<close>),
  the metrics, and \<^verbatim>\<open>multiProvider.providers.length\<close>.
\<close>

record bot =
  tokenProcessing :: "(string \<times> bool) list"
  tokenContracts :: "string \<rightharpoonup> token_info"
  txQueue_queue :: "string list"
  txQueue_processing :: bool
  txQueue_nonce :: "nat option"
  bot_metrics :: metrics
  providers_length :: nat
  trace :: "effect list"

text \<open>\<^verbatim>\<open>tokenProcessing.get(addr)\<close> read as a condition, and \<^verbatim>\<open>tokenProcessing.set\<close>.\<close>

definition tokenProcessing_get :: "'a bot_scheme \<Rightarrow> string \<Rightarrow> bool" where
  "tokenProcessing_get s addr = (map_of (tokenProcessing s) addr = Some True)"

definition tokenProcessing_set :: "string \<Rightarrow> bool \<Rightarrow> 'a bot_scheme \<Rightarrow> 'a bot_scheme" where
  "tokenProcessing_set addr v s = s\<lparr>tokenProcessing := AList.update addr v (tokenProcessing s)\<rparr>"

definition emit :: "effect list \<Rightarrow> 'a bot_scheme \<Rightarrow> 'a bot_scheme" where
  "emit es s = s\<lparr>trace := trace s @ es\<rparr>"

section \<open>Stale-lock sweep (bot.js, lines 359-371)\<close>

definition resetProcessingLocks :: "'a bot_scheme \<Rightarrow> 'a bot_scheme" where
  "resetProcessingLocks s =
     (let resetCount = length (filter snd (tokenProcessing s));
          s1 = s\<lparr>tokenProcessing :=
                   map (\<lambda>(address, isProcessing).
                          (address, if isProcessing then False else isProcessing))
                       (tokenProcessing s)\<rparr>
      in if resetCount > 0
         then (emit [Log_LockReset resetCount] s1)
                \<lparr>bot_metrics := updateMetrics ''lock_reset'' True (bot_metrics s1)\<rparr>
         else s1)"

section \<open>Transfer with retry (bot.js, lines 380-517)\<close>

text \<open>
  The answers of the chain to one pass of the retry loop. A call through the current
  provider or through endpoint \<open>i\<close> resolves (\<open>Inr\<close>) or rejects with a message
  (\<open>Inl\<close>); a call with no result of interest rejects with \<open>Some msg\<close> or resolves
  with \<open>None\<close>. \<open>getTransactionCount\<close> is the read of the \<^verbatim>\<open>catch\<close> block.
\<close>

record attempt_env =
  getGasPrice_current :: "string + nat"
  getGasPrice_on :: "nat \<Rightarrow> string + nat"
  estimateGas_current :: "string + nat"
  estimateGas_on :: "nat \<Rightarrow> string + nat"
  populateTransaction :: "string option"
  signTransaction :: "string option"
  sendTransaction_current :: "string + string"
  sendTransaction_on :: "nat \<Rightarrow> string + string"
  wait_confirmation :: "string option"
  getTransactionCount :: "string + nat"

text \<open>
  The answers of the chain to one call of \<^verbatim>\<open>transferWithRetry\<close>: the balance read, the
  read of \<^verbatim>\<open>initNonce\<close>, and the answers to pass number 1, 2, ... of the loop.
\<close>

record job_env =
  balanceOf_current :: "string + nat"
  balanceOf_on :: "nat \<Rightarrow> string + nat"
  initNonce_count :: "string + nat"
  attempt_io :: "nat \<Rightarrow> attempt_env"

datatype result = Ret_true | Ret_false | Ret_undefined | Throw string

definition maxRetries :: nat where
  "maxRetries = 5"

text \<open>The message of the TypeError raised by a method call on \<^verbatim>\<open>undefined\<close>.\<close>

definition TypeError_undefined :: string where
  "TypeError_undefined = ''Cannot read properties of undefined''"

text \<open>
  The pattern the function repeats four times: try the current provider, and in the
  \<^verbatim>\<open>catch\<close> go through \<^verbatim>\<open>callWithFallback\<close>. The value is \<open>Inr None\<close> when
  \<^verbatim>\<open>callWithFallback\<close> returned \<^verbatim>\<open>undefined\<close>.
\<close>

definition with_fallback ::
  "string + 'a \<Rightarrow> (nat \<Rightarrow> string + 'a) \<Rightarrow> nat \<Rightarrow> metrics \<Rightarrow> (string + 'a option) \<times> metrics" where
  "with_fallback current fn n m =
     (case current of
        Inr v \<Rightarrow> (Inr (Some v), m)
      | Inl _ \<Rightarrow>
          (case callWithFallback fn n m of
             (Returned v, m') \<Rightarrow> (Inr (Some v), m')
           | (ReturnedUndefined, m') \<Rightarrow> (Inr None, m')
           | (Thrown err, m') \<Rightarrow> (Inl err, m')))"

text \<open>
  The \<^verbatim>\<open>try\<close> block of one pass, up to and including the wait for one confirmation
  (lines 428-471). It gives the hash of the confirmed transaction or the message of the
  error thrown, and the value the variable \<^verbatim>\<open>gasPrice\<close> has at that point
  (\<open>None\<close> is \<^verbatim>\<open>undefined\<close>).
\<close>

definition try_attempt ::
  "attempt_env \<Rightarrow> string \<Rightarrow> nat \<Rightarrow> nat option \<Rightarrow> bot \<Rightarrow> (string + string) \<times> nat option \<times> bot" where
  "try_attempt a tsym nonce gasPrice s =
     (case with_fallback (getGasPrice_current a) (getGasPrice_on a) (providers_length s)
             (bot_metrics s) of
        (Inl err, m1) \<Rightarrow> (Inl err, gasPrice, s\<lparr>bot_metrics := m1\<rparr>)
      | (Inr None, m1) \<Rightarrow> (Inl TypeError_undefined, None, s\<lparr>bot_metrics := m1\<rparr>)
      | (Inr (Some fresh), m1) \<Rightarrow>
          (let gasPrice1 = fresh * 120 div 100 in
           case with_fallback (estimateGas_current a) (estimateGas_on a) (providers_length s) m1 of
             (Inl err, m2) \<Rightarrow> (Inl err, Some gasPrice1, s\<lparr>bot_metrics := m2\<rparr>)
           | (Inr gasEstimate, m2) \<Rightarrow>
               (case populateTransaction a of
                  Some err \<Rightarrow> (Inl err, Some gasPrice1, s\<lparr>bot_metrics := m2\<rparr>)
                | None \<Rightarrow>
                    (case gasEstimate of
                       None \<Rightarrow> (Inl TypeError_undefined, Some gasPrice1, s\<lparr>bot_metrics := m2\<rparr>)
                     | Some est \<Rightarrow>
                         (let gasLimit = est * 120 div 100 in
                          case signTransaction a of
                            Some err \<Rightarrow> (Inl err, Some gasPrice1, s\<lparr>bot_metrics := m2\<rparr>)
                          | None \<Rightarrow>
                              (case with_fallback (sendTransaction_current a)
                                      (sendTransaction_on a) (providers_length s) m2 of
                                 (Inl err, m3) \<Rightarrow>
                                   (Inl err, Some gasPrice1, s\<lparr>bot_metrics := m3\<rparr>)
                               | (Inr None, m3) \<Rightarrow>
                                   (Inl TypeError_undefined, Some gasPrice1,
                                    s\<lparr>bot_metrics := m3\<rparr>)
                               | (Inr (Some hash), m3) \<Rightarrow>
                                   (let s3 = emit [Sent nonce gasPrice1 gasLimit hash,
                                                   Log_Tx tsym hash gasPrice1]
                                               (s\<lparr>bot_metrics := m3\<rparr>)
                                    in case wait_confirmation a of
                                         Some err \<Rightarrow> (Inl err, Some gasPrice1, s3)
                                       | None \<Rightarrow>
                                           (Inr hash, Some gasPrice1,
                                            emit [Log_Confirmed tsym hash] s3))))))))"

text \<open>
  The \<^verbatim>\<open>catch\<close> block of one pass (lines 480-500): either the function ends there,
  or the loop goes on with a nonce, a gas price and a state.
\<close>

datatype after_error = Done result bot | Retry nat "nat option" bot

text \<open>
  Lines 495-499, reached from every branch of the \<^verbatim>\<open>if\<close> chain that does not return.
  \<^verbatim>\<open>gasPrice.mul\<close> throws out of the \<^verbatim>\<open>catch\<close> block when no gas price was ever read.
\<close>

definition bump_and_delay :: "nat \<Rightarrow> nat \<Rightarrow> nat option \<Rightarrow> bot \<Rightarrow> after_error" where
  "bump_and_delay attempt nonce gasPrice s =
     (case gasPrice of
        None \<Rightarrow> Done (Throw TypeError_undefined) s
      | Some g \<Rightarrow>
          Retry (nonce + 1) (Some (g * 110 div 100))
            (emit [Delay (2 ^ attempt * 1000)] (s\<lparr>txQueue_nonce := Some (nonce + 1)\<rparr>)))"

definition on_attempt_error ::
  "attempt_env \<Rightarrow> string \<Rightarrow> nat \<Rightarrow> string \<Rightarrow> nat \<Rightarrow> nat option \<Rightarrow> bot \<Rightarrow> after_error" where
  "on_attempt_error a tsym attempt message nonce gasPrice s =
     (let s0 = emit [Debug_AttemptFailed tsym attempt message] s in
      if str_includes message ''nonce too low'' then
        (case getTransactionCount a of
           Inl err \<Rightarrow> Done (Throw err) s0
         | Inr count \<Rightarrow>
             bump_and_delay attempt count gasPrice (s0\<lparr>txQueue_nonce := Some count\<rparr>))
      else if str_includes message ''replacement transaction underpriced'' then
        (case gasPrice of
           None \<Rightarrow> Done (Throw TypeError_undefined) s0
         | Some g \<Rightarrow> bump_and_delay attempt nonce (Some (g * 110 div 100)) s0)
      else if str_includes message ''insufficient funds'' then
        Done Ret_false
          ((emit [Log_InsufficientFunds, Notify_InsufficientFunds] s0)
             \<lparr>bot_metrics := updateMetrics ''transaction'' False (bot_metrics s0)\<rparr>)
      else bump_and_delay attempt nonce gasPrice s0)"

text \<open>Lines 503-511: the retry budget is used up.\<close>

definition retries_exhausted :: "string \<Rightarrow> bot \<Rightarrow> result \<times> bot" where
  "retries_exhausted tsym s =
     (let s1 = (emit [Log_Failed tsym maxRetries] s)
                 \<lparr>bot_metrics := updateMetrics ''transaction'' False (bot_metrics s)\<rparr>;
          s2 = (if consecutiveFailures (bot_metrics s1) \<ge> 5
                then emit [Notify_Alert (consecutiveFailures (bot_metrics s1))] s1 else s1)
      in (Ret_false, emit [Notify_Failed tsym maxRetries] s2))"

text \<open>Lines 473-479: the end of a pass whose transaction was confirmed.\<close>

definition attempt_succeeded :: "string \<Rightarrow> nat \<Rightarrow> string \<Rightarrow> nat \<Rightarrow> bot \<Rightarrow> result \<times> bot" where
  "attempt_succeeded tsym currentBalance hash nonce s =
     (Ret_true,
      emit [Notify_Success tsym currentBalance hash]
        (s\<lparr>txQueue_nonce := Some (nonce + 1),
           bot_metrics := updateMetrics ''transaction'' True (bot_metrics s)\<rparr>))"

text \<open>The \<^verbatim>\<open>while (attempt < maxRetries)\<close> loop, entered with \<open>attempt = 0\<close>.\<close>

function retry_loop ::
  "job_env \<Rightarrow> string \<Rightarrow> nat \<Rightarrow> nat \<Rightarrow> nat \<Rightarrow> nat option \<Rightarrow> bot \<Rightarrow> result \<times> bot" where
  "retry_loop env tsym currentBalance attempt nonce gasPrice s =
     (if attempt < maxRetries then
        (case try_attempt (attempt_io env (attempt + 1)) tsym nonce gasPrice s of
           (Inr hash, gasPrice', s') \<Rightarrow> attempt_succeeded tsym currentBalance hash nonce s'
         | (Inl message, gasPrice', s') \<Rightarrow>
             (case on_attempt_error (attempt_io env (attempt + 1)) tsym (attempt + 1) message
                     nonce gasPrice' s' of
                Done r s'' \<Rightarrow> (r, s'')
              | Retry nonce' gasPrice'' s'' \<Rightarrow>
                  retry_loop env tsym currentBalance (attempt + 1) nonce' gasPrice'' s''))
      else retries_exhausted tsym s)"
  by pat_completeness auto
termination
  by (relation "measure (\<lambda>(env, tsym, currentBalance, attempt, nonce, gasPrice, s).
        maxRetries - attempt)") auto

text \<open>
  Lines 416-418: \<^verbatim>\<open>!txQueue.nonce\<close> holds for \<^verbatim>\<open>null\<close> and for 0, and then
  \<^verbatim>\<open>initNonce\<close> reads the pending count. The value is the nonce the loop starts with.
\<close>

definition ensure_nonce :: "job_env \<Rightarrow> bot \<Rightarrow> string + (nat \<times> bot)" where
  "ensure_nonce env s =
     (case txQueue_nonce s of
        Some (Suc k) \<Rightarrow> Inr (Suc k, s)
      | _ \<Rightarrow>
          (case initNonce_count env of
             Inl err \<Rightarrow> Inl err
           | Inr count \<Rightarrow> Inr (count, s\<lparr>txQueue_nonce := Some count\<rparr>)))"

text \<open>The body of the outer \<^verbatim>\<open>try\<close> (lines 391-511).\<close>

definition transfer_body :: "job_env \<Rightarrow> string \<Rightarrow> bot \<Rightarrow> result \<times> bot" where
  "transfer_body env addr s =
     (case tokenContracts s addr of
        None \<Rightarrow> (Ret_undefined, emit [Log_TokenNotFound addr] s)
      | Some tokenInfo \<Rightarrow>
          (case with_fallback (balanceOf_current env) (balanceOf_on env) (providers_length s)
                  (bot_metrics s) of
             (Inl err, m1) \<Rightarrow> (Throw err, s\<lparr>bot_metrics := m1\<rparr>)
           | (Inr None, m1) \<Rightarrow> (Throw TypeError_undefined, s\<lparr>bot_metrics := m1\<rparr>)
           | (Inr (Some currentBalance), m1) \<Rightarrow>
               (if currentBalance \<le> 0 then (Ret_undefined, s\<lparr>bot_metrics := m1\<rparr>)
                else
                  (case ensure_nonce env (s\<lparr>bot_metrics := m1\<rparr>) of
                     Inl err \<Rightarrow> (Throw err, s\<lparr>bot_metrics := m1\<rparr>)
                   | Inr (nonce, s2) \<Rightarrow>
                       retry_loop env (symbol tokenInfo) currentBalance 0 nonce None s2))))"

text \<open>
  \<^verbatim>\<open>transferWithRetry(tokenAddress)\<close>: the guard of lines 383-386, the lock taken at
  line 388, the body, and the \<^verbatim>\<open>finally\<close> block of lines 513-516, which runs after a
  return and after a throw alike.
\<close>

definition transferWithRetry :: "job_env \<Rightarrow> string \<Rightarrow> bot \<Rightarrow> result \<times> bot" where
  "transferWithRetry env tokenAddress s =
     (let addr = toLowerCase tokenAddress in
      if tokenProcessing_get s addr then (Ret_undefined, s)
      else
        (case transfer_body env addr (tokenProcessing_set addr True s) of
           (r, s') \<Rightarrow> (r, tokenProcessing_set addr False s')))"

section \<open>The queue and the event loop (bot.js, lines 307-353)\<close>

text \<open>
  JavaScript runs each handler to its next \<^verbatim>\<open>await\<close> without interruption, so the
  program is a machine whose steps are those uninterrupted runs. A call of
  \<^verbatim>\<open>transferWithRetry\<close> that has been started and has not yet settled is a
  \<open>Call addr entered\<close>: \<open>entered\<close> says that it went past the guard and took the
  lock (a call stopped by the guard returns at once and settles without touching the
  lock). Each running \<^verbatim>\<open>process()\<close> waits for one such call; \<open>awaiting\<close>
  lists them. \<open>accepted\<close> and \<open>started\<close> are history: the jobs pushed onto the
  queue and the jobs shifted off it, in order. \<open>config_tokens\<close> is the constant
  \<^verbatim>\<open>tokens\<close> read from the configuration at start-up.
\<close>

datatype call = Call string bool

record sys = bot +
  awaiting :: "call list"
  accepted :: "string list"
  started :: "string list"
  config_tokens :: "(string \<times> token_info) list"

text \<open>\<^verbatim>\<open>transferWithRetry\<close> up to its first \<^verbatim>\<open>await\<close> (lines 381-388).\<close>

definition transferWithRetry_begin :: "string \<Rightarrow> sys \<Rightarrow> call \<times> sys" where
  "transferWithRetry_begin tokenAddress s =
     (let addr = toLowerCase tokenAddress in
      if tokenProcessing_get s addr then (Call addr False, s)
      else (Call addr True, tokenProcessing_set addr True s))"

text \<open>
  The head of the \<^verbatim>\<open>while\<close> loop of \<^verbatim>\<open>process\<close>: with a job in the queue it is
  shifted off and \<^verbatim>\<open>transferWithRetry\<close> is called and awaited; with none the loop
  ends and \<^verbatim>\<open>processing\<close> is reset.
\<close>

definition process_loop :: "sys \<Rightarrow> sys" where
  "process_loop s =
     (case txQueue_queue s of
        [] \<Rightarrow> s\<lparr>txQueue_processing := False\<rparr>
      | job # rest \<Rightarrow>
          (case transferWithRetry_begin job (s\<lparr>txQueue_queue := rest, started := started s @ [job]\<rparr>) of
             (c, s') \<Rightarrow> s'\<lparr>awaiting := awaiting s' @ [c]\<rparr>))"

definition process :: "sys \<Rightarrow> sys" where
  "process s = process_loop (s\<lparr>txQueue_processing := True\<rparr>)"

definition enqueue :: "string \<Rightarrow> sys \<Rightarrow> sys" where
  "enqueue job s =
     (let s1 = s\<lparr>txQueue_queue := txQueue_queue s @ [job], accepted := accepted s @ [job]\<rparr>
      in if \<not> txQueue_processing s1 then process s1 else s1)"

definition enqueueTransfer :: "string \<Rightarrow> sys \<Rightarrow> sys" where
  "enqueueTransfer tokenAddress s =
     (let addr = toLowerCase tokenAddress in
      if tokenProcessing_get s addr then s else enqueue addr s)"

text \<open>
  What can happen next: an inbound transfer is seen (by the \<^verbatim>\<open>Transfer\<close> listener or
  by a poll of a positive balance) and \<^verbatim>\<open>enqueueTransfer\<close> runs; the call number
  \<open>i\<close> of \<open>awaiting\<close> settles, resolved (\<open>True\<close>) or rejected; the timer or the
  \<^verbatim>\<open>/reset-locks\<close> route runs \<^verbatim>\<open>resetProcessingLocks\<close>. When a call that took the
  lock settles, its \<^verbatim>\<open>finally\<close> block has released it. When the call resolves the
  loop of \<^verbatim>\<open>process\<close> goes on; when it rejects, \<^verbatim>\<open>process\<close> rejects too and its
  loop is gone, with \<^verbatim>\<open>processing\<close> left as it is. A call stopped by the guard
  cannot reject, and an index beyond \<open>awaiting\<close> names no call: those events change
  nothing.

  The handlers of \<^verbatim>\<open>providerChanged\<close> and \<^verbatim>\<open>reconnected\<close> (lines 645-655) run
  \<^verbatim>\<open>setupContracts\<close>, and the first of them then sets \<^verbatim>\<open>txQueue.nonce\<close> to
  \<^verbatim>\<open>null\<close>. Both await, so each of their three uninterrupted runs is an event of its
  own, and the machine allows them in any order: \<open>Cleanup\<close> is
  \<^verbatim>\<open>cleanupContracts\<close> (also run at shutdown), \<open>Setup\<close> the loop of
  \<^verbatim>\<open>setupContracts\<close> over the tokens, \<open>NonceReset\<close> the assignment of
  \<^verbatim>\<open>null\<close>.
\<close>

datatype event = Inbound string | Settled nat bool | Sweep | Cleanup | Setup | NonceReset

text \<open>
  \<^verbatim>\<open>cleanupContracts\<close> (lines 258-265) clears both maps; the loop of
  \<^verbatim>\<open>setupContracts\<close> (lines 276-299) sets, for each configured token, its contract
  entry and its lock entry (\<^verbatim>\<open>false\<close>) under the lower-case address.
\<close>

definition cleanupContracts :: "sys \<Rightarrow> sys" where
  "cleanupContracts s = s\<lparr>tokenContracts := Map.empty, tokenProcessing := []\<rparr>"

definition setupContracts_loop :: "sys \<Rightarrow> sys" where
  "setupContracts_loop s =
     s\<lparr>tokenContracts :=
         foldl (\<lambda>m (address, info). m(toLowerCase address \<mapsto> info))
           (tokenContracts s) (config_tokens s),
       tokenProcessing :=
         foldl (\<lambda>m (address, info). AList.update (toLowerCase address) False m)
           (tokenProcessing s) (config_tokens s)\<rparr>"

definition settle :: "nat \<Rightarrow> bool \<Rightarrow> sys \<Rightarrow> sys" where
  "settle i resolved s =
     (if i < length (awaiting s) then
        (case awaiting s ! i of
           Call addr entered \<Rightarrow>
             (let s1 = s\<lparr>awaiting := take i (awaiting s) @ drop (Suc i) (awaiting s)\<rparr> in
              if entered then
                (let s2 = tokenProcessing_set addr False s1
                 in if resolved then process_loop s2 else s2)
              else if resolved then process_loop s1 else s))
      else s)"

fun step :: "event \<Rightarrow> sys \<Rightarrow> sys" where
  "step (Inbound tokenAddress) s = enqueueTransfer tokenAddress s"
| "step (Settled i resolved) s = settle i resolved s"
| "step Sweep s = resetProcessingLocks s"
| "step Cleanup s = cleanupContracts s"
| "step Setup s = setupContracts_loop s"
| "step NonceReset s = s\<lparr>txQueue_nonce := None\<rparr>"

fun run :: "event list \<Rightarrow> sys \<Rightarrow> sys" where
  "run [] s = s"
| "run (e # es) s = run es (step e s)"

text \<open>
  The program after start-up: \<^verbatim>\<open>setupContracts\<close> has gone through the configured
  tokens and set, for each, its contract entry and its lock entry (\<^verbatim>\<open>false\<close>) under
  the lower-case address; the queue is empty and idle.
\<close>

definition sys_init :: "(string \<times> token_info) list \<Rightarrow> nat option \<Rightarrow> nat \<Rightarrow> sys" where
  "sys_init tokens nonce0 n =
     \<lparr>tokenProcessing =
        foldl (\<lambda>m (address, info). AList.update (toLowerCase address) False m) [] tokens,
      tokenContracts =
        foldl (\<lambda>m (address, info). m(toLowerCase address \<mapsto> info)) Map.empty tokens,
      txQueue_queue = [], txQueue_processing = False, txQueue_nonce = nonce0,
      bot_metrics = metrics_init, providers_length = n, trace = [],
      awaiting = [], accepted = [], started = [], config_tokens = tokens\<rparr>"

text \<open>
  The invariant of the machine: at most one call is awaited, and then the queue is
  marked as processing; the jobs accepted so far are the jobs started so far followed by
  the jobs still queued; an awaited call is the call for the job started last.
\<close>

definition queue_inv :: "sys \<Rightarrow> bool" where
  "queue_inv s =
     (length (awaiting s) \<le> 1 \<and>
      (awaiting s = [] \<or> txQueue_processing s) \<and>
      accepted s = started s @ txQueue_queue s \<and>
      (\<forall>c \<in> set (awaiting s).
         started s \<noteq> [] \<and> (\<exists>entered. c = Call (toLowerCase (last (started s))) entered)))"

text \<open>
  A second invariant: every awaited call went past the guard, and a lock is held only
  for the asset of an awaited call.
\<close>

definition locks_inv :: "sys \<Rightarrow> bool" where
  "locks_inv s =
     ((\<forall>c \<in> set (awaiting s). \<exists>addr. c = Call addr True) \<and>
      (\<forall>addr. tokenProcessing_get s addr \<longrightarrow> Call addr True \<in> set (awaiting s)))"

text \<open>A configuration with two tokens, used to run the machine on concrete events.\<close>

definition two_tokens :: "(string \<times> token_info) list" where
  "two_tokens = [(''0xA1'', \<lparr>decimals = 6, symbol = ''USDC''\<rparr>),
                 (''0xb2'', \<lparr>decimals = 18, symbol = ''WETH''\<rparr>)]"

section \<open>Reading a trace\<close>



text \<open>The messages of the failed attempts of a trace, in order.\<close>

fun failure_messages :: "effect list \<Rightarrow> string list" where
  "failure_messages [] = []"
| "failure_messages (Debug_AttemptFailed _ _ message # t) = message # failure_messages t"
| "failure_messages (_ # t) = failure_messages t"

text \<open>The transactions sent in a trace, in order, each with its nonce and gas price.\<close>

fun sent_transactions :: "effect list \<Rightarrow> (nat \<times> nat) list" where
  "sent_transactions [] = []"
| "sent_transactions (Sent n g l h # t) = (n, g) # sent_transactions t"
| "sent_transactions (_ # t) = sent_transactions t"

definition tx_counters :: "metrics \<Rightarrow> nat \<times> nat \<times> nat \<times> nat" where
  "tx_counters m = (totalTransactions m, successfulTx m, failedTx m, consecutiveFailures m)"

text \<open>The counters after one more failed transaction.\<close>

definition failed_once :: "nat \<times> nat \<times> nat \<times> nat \<Rightarrow> nat \<times> nat \<times> nat \<times> nat" where
  "failed_once c =
     (case c of (tot, ok, failed, streak) \<Rightarrow> (tot + 1, ok, failed + 1, streak + 1))"

text \<open>
  The nonce a job starts with (lines 416-421): \<^verbatim>\<open>txQueue.nonce\<close> when it is set and
  not 0, and otherwise the pending count that \<^verbatim>\<open>initNonce\<close> reads (when that read
  fails the job sends nothing, and the value given here is of no consequence).
\<close>

definition starting_nonce :: "job_env \<Rightarrow> bot \<Rightarrow> nat" where
  "starting_nonce env s =
     (case txQueue_nonce s of
        Some (Suc k) \<Rightarrow> Suc k
      | _ \<Rightarrow> (case initNonce_count env of Inr count \<Rightarrow> count | Inl err \<Rightarrow> 0))"

text \<open>
  An error message that reaches the third branch of the \<^verbatim>\<open>if\<close> chain of the
  \<^verbatim>\<open>catch\<close> block: it includes 'insufficient funds' and neither of the two phrases
  tested before it.
\<close>

definition insufficient_funds_error :: "string \<Rightarrow> bool" where
  "insufficient_funds_error message =
     (\<not> str_includes message ''nonce too low'' \<and>
      \<not> str_includes message ''replacement transaction underpriced'' \<and>
      str_includes message ''insufficient funds'')"

section \<open>The loop after some passes\<close>

text \<open>
  \<open>loop_after k\<close> runs \<open>k\<close> passes of the \<^verbatim>\<open>while\<close> loop that all end in the
  \<^verbatim>\<open>catch\<close> block and go on: it gives the pass counter, the nonce, the gas price
  and the state with which pass \<open>k + 1\<close> starts, or \<open>None\<close> when the loop has
  ended before.
\<close>

fun loop_after ::
  "nat \<Rightarrow> job_env \<Rightarrow> string \<Rightarrow> nat \<Rightarrow> nat \<Rightarrow> nat option \<Rightarrow> bot \<Rightarrow>
   (nat \<times> nat \<times> nat option \<times> bot) option" where
  "loop_after 0 env tsym attempt nonce gasPrice s = Some (attempt, nonce, gasPrice, s)"
| "loop_after (Suc k) env tsym attempt nonce gasPrice s =
     (if attempt < maxRetries then
        (case try_attempt (attempt_io env (attempt + 1)) tsym nonce gasPrice s of
           (Inr hash, gasPrice', s') \<Rightarrow> None
         | (Inl message, gasPrice', s') \<Rightarrow>
             (case on_attempt_error (attempt_io env (attempt + 1)) tsym (attempt + 1) message
                     nonce gasPrice' s' of
                Done r s'' \<Rightarrow> None
              | Retry nonce' gasPrice'' s'' \<Rightarrow>
                  loop_after k env tsym (attempt + 1) nonce' gasPrice'' s''))
      else None)"

section \<open>Concrete runs\<close>

text \<open>
  The program after start-up, as \<open>sys_init\<close> without the fields of the event loop.
\<close>

definition bot_init :: "(string \<times> token_info) list \<Rightarrow> nat option \<Rightarrow> nat \<Rightarrow> bot" where
  "bot_init tokens nonce0 n =
     \<lparr>tokenProcessing =
        foldl (\<lambda>m (address, info). AList.update (toLowerCase address) False m) [] tokens,
      tokenContracts =
        foldl (\<lambda>m (address, info). m(toLowerCase address \<mapsto> info)) Map.empty tokens,
      txQueue_queue = [], txQueue_processing = False, txQueue_nonce = nonce0,
      bot_metrics = metrics_init, providers_length = n, trace = []\<rparr>"

text \<open>
  A pass in which every call succeeds, with a gas price estimate of 100 and a gas
  estimate of 50000; the same pass with \<^verbatim>\<open>sendTransaction\<close> rejected on every endpoint
  with a given message.
\<close>

definition attempt_ok :: attempt_env where
  "attempt_ok =
     \<lparr>getGasPrice_current = Inr 100, getGasPrice_on = (\<lambda>i. Inr 100),
      estimateGas_current = Inr 50000, estimateGas_on = (\<lambda>i. Inr 50000),
      populateTransaction = None, signTransaction = None,
      sendTransaction_current = Inr ''0xh1'', sendTransaction_on = (\<lambda>i. Inr ''0xh1''),
      wait_confirmation = None, getTransactionCount = Inr 20\<rparr>"

definition attempt_send_fails :: "string \<Rightarrow> attempt_env" where
  "attempt_send_fails message =
     attempt_ok\<lparr>sendTransaction_current := Inl message,
                sendTransaction_on := (\<lambda>i. Inl message)\<rparr>"

text \<open>
  A job on a balance of 1000 whose first \<open>k\<close> passes fail at \<^verbatim>\<open>sendTransaction\<close>
  with the given message and whose later passes succeed.
\<close>

definition job_failing_first :: "nat \<Rightarrow> string \<Rightarrow> job_env" where
  "job_failing_first k message =
     \<lparr>balanceOf_current = Inr 1000, balanceOf_on = (\<lambda>i. Inr 1000),
      initNonce_count = Inr 20,
      attempt_io = (\<lambda>attempt. if attempt \<le> k then attempt_send_fails message else attempt_ok)\<rparr>"

text \<open>
  A job on a balance of 1000 whose first pass fails at \<^verbatim>\<open>sendTransaction\<close> with a
  timeout, whose second pass fails there with the given message, and whose later passes
  would succeed.
\<close>

definition job_second_pass_fails :: "string \<Rightarrow> job_env" where
  "job_second_pass_fails message =
     \<lparr>balanceOf_current = Inr 1000, balanceOf_on = (\<lambda>i. Inr 1000),
      initNonce_count = Inr 20,
      attempt_io = (\<lambda>attempt. if attempt = 1 then attempt_send_fails ''timeout''
                              else if attempt = 2 then attempt_send_fails message
                              else attempt_ok)\<rparr>"

section \<open>Properties of the metrics\<close>

lemma updateMetrics_calls_total:
  "totalTransactions m = successfulTx m + failedTx m \<Longrightarrow>
   totalTransactions (updateMetrics_calls cs m) =
     successfulTx (updateMetrics_calls cs m) + failedTx (updateMetrics_calls cs m)"
  by (induction cs m rule: updateMetrics_calls.induct) (auto simp: updateMetrics_def Let_def)


text \<open>
  Claim C10. A call \<^verbatim>\<open>updateMetrics('transaction', success)\<close> adds one to
  \<open>totalTransactions\<close> and one to \<open>successfulTx\<close> or to \<open>failedTx\<close>, so it keeps
  \<open>totalTransactions = successfulTx + failedTx\<close>, which therefore holds after every
  sequence of calls made from the initial counters; it sets \<open>consecutiveFailures\<close> to 0
  on a success and adds exactly one to it on a failure. A call of any other type leaves
  these counters as they are.
\<close>

theorem updateMetrics_transaction_counters:
  "(let m' = updateMetrics ''transaction'' success m in
      totalTransactions m' = totalTransactions m + 1 \<and>
      successfulTx m' = successfulTx m + (if success then 1 else 0) \<and>
      failedTx m' = failedTx m + (if success then 0 else 1) \<and>
      consecutiveFailures m' = (if success then 0 else consecutiveFailures m + 1) \<and>
      (totalTransactions m = successfulTx m + failedTx m \<longrightarrow>
         totalTransactions m' = successfulTx m' + failedTx m')) \<and>
   (let m' = updateMetrics_calls cs metrics_init in
      totalTransactions m' = successfulTx m' + failedTx m') \<and>
   (type \<noteq> ''transaction'' \<longrightarrow>
      (let m' = updateMetrics type success m in
         totalTransactions m' = totalTransactions m \<and> successfulTx m' = successfulTx m \<and>
         failedTx m' = failedTx m \<and> consecutiveFailures m' = consecutiveFailures m))"
proof -
  have inv0: "totalTransactions metrics_init = successfulTx metrics_init + failedTx metrics_init"
    by (simp add: metrics_init_def)
  have a: "let m' = updateMetrics_calls cs metrics_init in
      totalTransactions m' = successfulTx m' + failedTx m'"
    using updateMetrics_calls_total [OF inv0, of cs] by (simp add: Let_def)
  show ?thesis using a by (simp add: updateMetrics_def Let_def)
qed

theorem updateMetrics_transaction_counters_witness:
  "(let m' = updateMetrics ''transaction'' False metrics_init in
      totalTransactions m' = 1 \<and> failedTx m' = 1 \<and> consecutiveFailures m' = 1) \<and>
   (let m' = updateMetrics ''rpc_failure'' True (updateMetrics ''transaction'' False metrics_init) in
      totalTransactions m' = 1 \<and> failedTx m' = 1 \<and> consecutiveFailures m' = 1 \<and> rpcFailures m' = 1)"
  using updateMetrics_transaction_counters [of False metrics_init "[]" "''rpc_failure''"]
        updateMetrics_transaction_counters [of True "updateMetrics ''transaction'' False metrics_init" "[]" "''rpc_failure''"]
  by (simp add: Let_def metrics_init_def updateMetrics_def)

section \<open>Properties of the endpoint pool\<close>

lemma lat_min_le1: "lat_le (lat_min a b) a"
  by (cases a; cases b) (simp_all add: lat_min_def)
lemma lat_min_le2: "lat_le (lat_min a b) b"
  by (cases a; cases b) (simp_all add: lat_min_def)
lemma lat_le_trans: "lat_le a b \<Longrightarrow> lat_le b c \<Longrightarrow> lat_le a c"
  by (cases a; cases b; cases c) simp_all

lemma Math_min_le: "x \<in> set xs \<Longrightarrow> lat_le (Math_min xs) x"
proof (induction xs)
  case Nil then show ?case by simp
next
  case (Cons y ys)
  show ?case
  proof (cases "x = y")
    case True
    then show ?thesis by (simp add: lat_min_le1)
  next
    case False
    with Cons have "lat_le (Math_min ys) x" by simp
    then have "lat_le (lat_min y (Math_min ys)) x"
      by (rule lat_le_trans [OF lat_min_le2])
    then show ?thesis by simp
  qed
qed

lemma lat_min_cases: "lat_min a b = a \<or> lat_min a b = b"
  by (simp add: lat_min_def)

lemma Math_min_in: "Math_min xs \<noteq> Infinity \<Longrightarrow> Math_min xs \<in> set xs"
proof (induction xs)
  case Nil then show ?case by simp
next
  case (Cons y ys)
  then show ?case using lat_min_cases [of y "Math_min ys"] by auto
qed

lemma lat_min_Infinity: "lat_min a b = Infinity \<longleftrightarrow> a = Infinity \<and> b = Infinity"
  by (cases a; cases b) (simp_all add: lat_min_def)

lemma Math_min_Infinity: "Math_min xs = Infinity \<longleftrightarrow> (\<forall>x \<in> set xs. x = Infinity)"
  by (induction xs) (simp_all add: lat_min_Infinity)

lemma indexOf_found:
  "v \<in> set xs \<Longrightarrow> 0 \<le> indexOf xs v \<and> nat (indexOf xs v) < length xs \<and>
     xs ! nat (indexOf xs v) = v \<and> (\<forall>j < nat (indexOf xs v). xs ! j \<noteq> v)"
proof (induction xs)
  case Nil then show ?case by simp
next
  case (Cons y ys)
  show ?case
  proof (cases "y = v")
    case True then show ?thesis by simp
  next
    case False
    with Cons have IH: "0 \<le> indexOf ys v \<and> nat (indexOf ys v) < length ys \<and>
     ys ! nat (indexOf ys v) = v \<and> (\<forall>j < nat (indexOf ys v). ys ! j \<noteq> v)" by simp
    then have n: "nat (indexOf ys v + 1) = Suc (nat (indexOf ys v))" by arith
    have ix: "indexOf (y # ys) v = indexOf ys v + 1" using False IH by (simp add: Let_def)
    have "\<forall>j < Suc (nat (indexOf ys v)). (y # ys) ! j \<noteq> v"
    proof (intro allI impI)
      fix j assume "j < Suc (nat (indexOf ys v))"
      then show "(y # ys) ! j \<noteq> v" using False IH by (cases j) simp_all
    qed
    then show ?thesis using IH by (simp add: ix n)
  qed
qed

text \<open>
  Claim C6. When some endpoint has a finite latency, \<^verbatim>\<open>selectBestProvider\<close> sets
  \<open>currentIndex\<close> to the first index whose latency is finite and no larger than any
  other entry, and emits \<^verbatim>\<open>providerChanged\<close>; so it never selects an unreachable
  endpoint then. When every entry is \<^verbatim>\<open>Infinity\<close> it leaves the pool as it is and only
  logs the outage. For the latencies 120, 45, 200 it selects index 1.
\<close>

theorem selectBestProvider_minimum:
  "(if \<exists>x \<in> set (latencies p). x \<noteq> Infinity
    then (let p' = fst (selectBestProvider p); k = nat (currentIndex p') in
            0 \<le> currentIndex p' \<and> k < length (latencies p) \<and>
            latencies p' = latencies p \<and>
            latencies p ! k \<noteq> Infinity \<and>
            (\<forall>j < length (latencies p). lat_le (latencies p ! k) (latencies p ! j)) \<and>
            (\<forall>j < k. latencies p ! j \<noteq> latencies p ! k) \<and>
            snd (selectBestProvider p) = [ProviderChanged (currentIndex p')])
    else selectBestProvider p = (p, [AllUnavailable])) \<and>
   currentIndex (fst (selectBestProvider \<lparr>latencies = [Ms 120, Ms 45, Ms 200], currentIndex = c\<rparr>)) = 1"
proof -
  let ?ls = "latencies p"
  let ?m = "Math_min ?ls"
  have ex: "currentIndex (fst (selectBestProvider \<lparr>latencies = [Ms 120, Ms 45, Ms 200], currentIndex = c\<rparr>)) = 1"
    by (simp add: selectBestProvider_def lat_min_def Let_def)
  have main: "(if \<exists>x \<in> set ?ls. x \<noteq> Infinity
    then (let p' = fst (selectBestProvider p); k = nat (currentIndex p') in
            0 \<le> currentIndex p' \<and> k < length ?ls \<and>
            latencies p' = ?ls \<and>
            ?ls ! k \<noteq> Infinity \<and>
            (\<forall>j < length ?ls. lat_le (?ls ! k) (?ls ! j)) \<and>
            (\<forall>j < k. ?ls ! j \<noteq> ?ls ! k) \<and>
            snd (selectBestProvider p) = [ProviderChanged (currentIndex p')])
    else selectBestProvider p = (p, [AllUnavailable]))"
  proof (cases "\<exists>x \<in> set ?ls. x \<noteq> Infinity")
    case False
    then have "?m = Infinity" by (simp add: Math_min_Infinity)
    with False show ?thesis by (simp add: selectBestProvider_def)
  next
    case True
    then have ne: "?m \<noteq> Infinity" by (simp add: Math_min_Infinity)
    then have mem: "?m \<in> set ?ls" by (rule Math_min_in)
    note ix = indexOf_found [OF mem]
    have le: "\<forall>j < length ?ls. lat_le ?m (?ls ! j)"
      by (simp add: Math_min_le)
    show ?thesis using True ne ix le
      by (simp add: selectBestProvider_def Let_def)
  qed
  show ?thesis using main ex by blast
qed

theorem selectBestProvider_minimum_witness:
  "selectBestProvider \<lparr>latencies = [Infinity, Ms 45, Ms 45], currentIndex = 0\<rparr> =
     (\<lparr>latencies = [Infinity, Ms 45, Ms 45], currentIndex = 1\<rparr>, [ProviderChanged 1]) \<and>
   selectBestProvider \<lparr>latencies = [Infinity, Infinity], currentIndex = 1\<rparr> =
     (\<lparr>latencies = [Infinity, Infinity], currentIndex = 1\<rparr>, [AllUnavailable])"
  using selectBestProvider_minimum [of "\<lparr>latencies = [Infinity, Ms 45, Ms 45], currentIndex = 0\<rparr>" 0]
        selectBestProvider_minimum [of "\<lparr>latencies = [Infinity, Infinity], currentIndex = 1\<rparr>" 0]
  by (simp add: selectBestProvider_def lat_min_def Let_def)
lemma callWithFallback_from_all_fail:
  "i < n \<Longrightarrow> \<forall>j. i \<le> j \<and> j < n \<longrightarrow> isl (fn j) \<Longrightarrow>
   fst (callWithFallback_from fn n i m) = Thrown (projl (fn (n - 1)))"
proof (induction fn n i m rule: callWithFallback_from.induct)
  case (1 fn n i m)
  from "1.prems" obtain err where e: "fn i = Inl err" by (cases "fn i") auto
  show ?case
  proof (cases "i = n - 1")
    case True
    then show ?thesis using "1.prems" e by (simp add: Let_def)
  next
    case False
    then have lt: "i + 1 < n" using "1.prems" by simp
    have "fst (callWithFallback_from fn n (i + 1) (updateMetrics ''rpc_failure'' True m)) = Thrown (projl (fn (n - 1)))"
      using "1.IH" [OF "1.prems"(1) e refl False lt] "1.prems"(2) by simp
    then show ?thesis using "1.prems" e False
      by (subst callWithFallback_from.simps) (simp add: Let_def)
  qed
qed

lemma callWithFallback_from_first_success:
  "i \<le> k \<Longrightarrow> k < n \<Longrightarrow> fn k = Inr v \<Longrightarrow> \<forall>j. i \<le> j \<and> j < k \<longrightarrow> isl (fn j) \<Longrightarrow>
   fst (callWithFallback_from fn n i m) = Returned v"
proof (induction fn n i m rule: callWithFallback_from.induct)
  case (1 fn n i m)
  show ?case
  proof (cases "i = k")
    case True
    then show ?thesis using "1.prems" by (subst callWithFallback_from.simps) simp
  next
    case False
    then have lt: "i < k" using "1.prems" by simp
    then obtain err where e: "fn i = Inl err" using "1.prems" by (cases "fn i") auto
    have nl: "i \<noteq> n - 1" using lt "1.prems" by simp
    have "fst (callWithFallback_from fn n (i + 1) (updateMetrics ''rpc_failure'' True m)) = Returned v"
      using "1.IH" [OF _ e refl nl] lt "1.prems" by simp
    then show ?thesis using "1.prems" e nl lt
      by (subst callWithFallback_from.simps) (simp add: Let_def)
  qed
qed

text \<open>
  Claim C3. \<^verbatim>\<open>callWithFallback\<close> throws only when the pool is not empty and the
  operation failed on every endpoint (the error thrown is the one of the last endpoint);
  whenever the operation succeeds on some endpoint, it returns the result of the first
  endpoint, counted from index 0, on which it succeeds.
\<close>

theorem callWithFallback_raises_only_when_all_fail:
  "(\<forall>e. fst (callWithFallback fn n m) = Thrown e \<longrightarrow>
        0 < n \<and> (\<forall>i < n. isl (fn i)) \<and> fn (n - 1) = Inl e) \<and>
   (\<forall>k v. k < n \<and> fn k = Inr v \<and> (\<forall>j < k. isl (fn j)) \<longrightarrow>
        fst (callWithFallback fn n m) = Returned v)"
proof -
  have succ: "fst (callWithFallback fn n m) = Returned v"
    if "k < n" "fn k = Inr v" "\<forall>j < k. isl (fn j)" for k v
    using callWithFallback_from_first_success [of 0 k n fn v m] that
    by (simp add: callWithFallback_def)
  have thrown: "0 < n \<and> (\<forall>i < n. isl (fn i)) \<and> fn (n - 1) = Inl e"
    if t: "fst (callWithFallback fn n m) = Thrown e" for e
  proof -
    have pos: "0 < n"
    proof (rule ccontr)
      assume "\<not> 0 < n"
      then show False using t by (simp add: callWithFallback_def)
    qed
    have all: "\<forall>i < n. isl (fn i)"
    proof (rule ccontr)
      assume "\<not> (\<forall>i < n. isl (fn i))"
      then have ex: "\<exists>i. i < n \<and> \<not> isl (fn i)" by blast
      define k where "k = (LEAST i. i < n \<and> \<not> isl (fn i))"
      have k: "k < n \<and> \<not> isl (fn k)"
        unfolding k_def using ex by (rule LeastI_ex)
      have least: "\<forall>j < k. isl (fn j)"
      proof (intro allI impI)
        fix j assume jk: "j < k"
        show "isl (fn j)"
        proof (rule ccontr)
          assume "\<not> isl (fn j)"
          then have "j < n \<and> \<not> isl (fn j)" using jk k by simp
          then have "k \<le> j" unfolding k_def by (rule Least_le)
          then show False using jk by simp
        qed
      qed
      obtain v where v: "fn k = Inr v" using k by (cases "fn k") auto
      have "fst (callWithFallback fn n m) = Returned v"
        using succ [of k v] k v least by simp
      then show False using t by simp
    qed
    have "fst (callWithFallback fn n m) = Thrown (projl (fn (n - 1)))"
      using callWithFallback_from_all_fail [of 0 n fn m] pos all
      by (simp add: callWithFallback_def)
    then have "e = projl (fn (n - 1))" using t by simp
    moreover have "isl (fn (n - 1))" using all pos by simp
    ultimately have "fn (n - 1) = Inl e" by (cases "fn (n - 1)") auto
    then show ?thesis using pos all by simp
  qed
  show ?thesis using succ thrown by blast
qed

theorem callWithFallback_raises_only_when_all_fail_witness:
  "fst (callWithFallback (\<lambda>i. if i = 2 then Inr (7::nat) else Inl ''timeout'') 4 metrics_init)
     = Returned 7 \<and>
   fst (callWithFallback (\<lambda>i. (Inl (if i = 1 then ''closed'' else ''timeout'') :: string + nat))
          2 metrics_init) = Thrown ''closed''"
proof -
  let ?f = "\<lambda>i::nat. if i = 2 then Inr (7::nat) else Inl ''timeout''"
  let ?g = "\<lambda>i::nat. (Inl (if i = 1 then ''closed'' else ''timeout'') :: string + nat)"
  have h: "(2::nat) < 4 \<and> ?f 2 = Inr 7 \<and> (\<forall>j < 2. isl (?f j))" by simp
  have "\<forall>k v. k < 4 \<and> ?f k = Inr v \<and> (\<forall>j < k. isl (?f j)) \<longrightarrow>
        fst (callWithFallback ?f 4 metrics_init) = Returned v"
    using callWithFallback_raises_only_when_all_fail [of ?f 4 metrics_init] by (rule conjunct2)
  then have a: "fst (callWithFallback ?f 4 metrics_init) = Returned 7"
    using h by blast
  have b: "fst (callWithFallback ?g 2 metrics_init) = Thrown ''closed''"
    by (simp add: callWithFallback_def Let_def)
  show ?thesis using a b by (rule conjI)
qed

section \<open>Properties of the queue and of the locks\<close>

lemma tokenProcessing_set_fields [simp]:
  "awaiting (tokenProcessing_set a v s) = awaiting s"
  "accepted (tokenProcessing_set a v s) = accepted s"
  "started (tokenProcessing_set a v s) = started s"
  "txQueue_queue (tokenProcessing_set a v s) = txQueue_queue s"
  "txQueue_processing (tokenProcessing_set a v s) = txQueue_processing s"
  by (simp_all add: tokenProcessing_set_def)

lemma resetProcessingLocks_fields [simp]:
  "awaiting (resetProcessingLocks s) = awaiting s"
  "accepted (resetProcessingLocks s) = accepted s"
  "started (resetProcessingLocks s) = started s"
  "txQueue_queue (resetProcessingLocks s) = txQueue_queue s"
  "txQueue_processing (resetProcessingLocks s) = txQueue_processing s"
  by (simp_all add: resetProcessingLocks_def Let_def emit_def)

lemma tokenProcessing_get_set:
  "tokenProcessing_get (tokenProcessing_set addr v s) a = (if a = addr then v else tokenProcessing_get s a)"
  by (simp add: tokenProcessing_get_def tokenProcessing_set_def update_conv')

lemma tokenProcessing_get_upd [simp]:
  "tokenProcessing_get (s\<lparr>txQueue_queue := q\<rparr>) a = tokenProcessing_get s a"
  "tokenProcessing_get (s\<lparr>txQueue_processing := p\<rparr>) a = tokenProcessing_get s a"
  "tokenProcessing_get (s\<lparr>accepted := x\<rparr>) a = tokenProcessing_get s a"
  "tokenProcessing_get (s\<lparr>started := y\<rparr>) a = tokenProcessing_get s a"
  "tokenProcessing_get (s\<lparr>awaiting := z\<rparr>) a = tokenProcessing_get s a"
  by (simp_all add: tokenProcessing_get_def)



lemma process_loop_inv:
  assumes "awaiting s = []" "accepted s = started s @ txQueue_queue s" "txQueue_processing s"
  shows "queue_inv (process_loop s)"
proof (cases "txQueue_queue s")
  case Nil
  then show ?thesis using assms by (simp add: process_loop_def queue_inv_def)
next
  case (Cons job rest)
  then show ?thesis using assms
    by (auto simp: process_loop_def queue_inv_def transferWithRetry_begin_def Let_def)
qed

lemma enqueue_inv: "queue_inv s \<Longrightarrow> queue_inv (enqueue job s)"
proof -
  assume inv: "queue_inv s"
  show ?thesis
  proof (cases "txQueue_processing s")
    case True
    then show ?thesis using inv by (simp add: enqueue_def queue_inv_def Let_def)
  next
    case False
    then have aw: "awaiting s = []" using inv by (simp add: queue_inv_def)
    let ?s1 = "s\<lparr>txQueue_queue := txQueue_queue s @ [job], accepted := accepted s @ [job],
                 txQueue_processing := True\<rparr>"
    have "queue_inv (process_loop ?s1)"
      using aw inv by (intro process_loop_inv) (simp_all add: queue_inv_def)
    then show ?thesis using False by (simp add: enqueue_def process_def Let_def)
  qed
qed

lemma settle_inv: "queue_inv s \<Longrightarrow> queue_inv (settle i resolved s)"
proof -
  assume inv: "queue_inv s"
  show ?thesis
  proof (cases "i < length (awaiting s)")
    case False
    then show ?thesis using inv by (simp add: settle_def)
  next
    case True
    then have i0: "i = 0" and len: "length (awaiting s) = 1" using inv by (auto simp: queue_inv_def)
    then obtain c where aw: "awaiting s = [c]" by (cases "awaiting s") auto
    obtain addr entered where c: "c = Call addr entered" by (cases c)
    have pr: "txQueue_processing s" using inv aw by (simp add: queue_inv_def)
    have acc: "accepted s = started s @ txQueue_queue s" using inv by (simp add: queue_inv_def)
    let ?s1 = "s\<lparr>awaiting := []\<rparr>"
    have inv1: "queue_inv ?s1" using inv by (simp add: queue_inv_def)
    have inv2: "queue_inv (tokenProcessing_set addr False ?s1)" using inv by (simp add: queue_inv_def)
    have l1: "queue_inv (process_loop ?s1)"
      using pr acc by (intro process_loop_inv) simp_all
    have l2: "queue_inv (process_loop (tokenProcessing_set addr False ?s1))"
      using pr acc by (intro process_loop_inv) simp_all
    show ?thesis using i0 aw c inv inv1 inv2 l1 l2
      by (simp add: settle_def Let_def)
  qed
qed

lemma step_inv: "queue_inv s \<Longrightarrow> queue_inv (step e s)"
proof (cases e)
  case (Inbound a)
  assume "queue_inv s"
  then show ?thesis using Inbound enqueue_inv by (simp add: enqueueTransfer_def Let_def)
next
  case (Settled i r)
  assume "queue_inv s"
  then show ?thesis using Settled settle_inv by simp
next
  case Sweep
  assume "queue_inv s"
  then show ?thesis using Sweep by (simp add: queue_inv_def)
next
  case Cleanup
  assume "queue_inv s"
  then show ?thesis using Cleanup by (simp add: queue_inv_def cleanupContracts_def)
next
  case Setup
  assume "queue_inv s"
  then show ?thesis using Setup by (simp add: queue_inv_def setupContracts_loop_def)
next
  case NonceReset
  assume "queue_inv s"
  then show ?thesis using NonceReset by (simp add: queue_inv_def)
qed

lemma run_inv: "queue_inv s \<Longrightarrow> queue_inv (run es s)"
  by (induction es arbitrary: s) (simp_all add: step_inv)

lemma sys_init_inv: "queue_inv (sys_init tokens nonce0 n)"
  by (simp add: queue_inv_def sys_init_def)

text \<open>
  Claim C2. After any sequence of events from start-up at most one call of
  \<^verbatim>\<open>transferWithRetry\<close> is awaited, and it is the call for the job shifted off the
  queue last; the jobs started are, in order, a prefix of the jobs accepted, the rest
  being the queue. So jobs are taken in enqueue order, a job is shifted only when no call
  is in flight, and no two submissions are in flight at once.
\<close>

theorem process_one_call_in_flight_fifo:
  "(let s = run es (sys_init tokens nonce0 n) in
      length (awaiting s) \<le> 1 \<and>
      accepted s = started s @ txQueue_queue s \<and>
      (\<forall>c \<in> set (awaiting s).
         started s \<noteq> [] \<and> (\<exists>entered. c = Call (toLowerCase (last (started s))) entered)))"
proof -
  have "queue_inv (run es (sys_init tokens nonce0 n))"
    using sys_init_inv by (rule run_inv)
  then show ?thesis by (simp add: queue_inv_def Let_def)
qed

theorem process_one_call_in_flight_fifo_witness:
  "(let s = run [Inbound ''0xB2'', Inbound ''0xa1'', Settled 0 True]
              (sys_init two_tokens (Some 7) 2) in
      awaiting s = [Call ''0xa1'' True] \<and> started s = [''0xb2'', ''0xa1''] \<and>
      txQueue_queue s = [] \<and> accepted s = started s @ txQueue_queue s)"
proof -
  let ?s = "run [Inbound ''0xB2'', Inbound ''0xa1'', Settled 0 True]
              (sys_init two_tokens (Some 7) 2)"
  have ev: "awaiting ?s = [Call ''0xa1'' True] \<and> started ?s = [''0xb2'', ''0xa1''] \<and>
      txQueue_queue ?s = []"
    by code_simp
  have "accepted ?s = started ?s @ txQueue_queue ?s"
    using process_one_call_in_flight_fifo
            [of "[Inbound ''0xB2'', Inbound ''0xa1'', Settled 0 True]" two_tokens "Some 7" 2]
    by (simp only: Let_def)
  then show ?thesis using ev by (simp only: Let_def)
qed

lemma reset_map_of:
  "map_of (map (\<lambda>(address, isProcessing). (address, if isProcessing then False else isProcessing)) al) a
     \<noteq> Some True"
  by (induction al) (auto split: if_splits)

lemma reset_map_id:
  "\<forall>e \<in> set al. \<not> snd e \<Longrightarrow>
   map (\<lambda>(address, isProcessing). (address, if isProcessing then False else isProcessing)) al = al"
  by (induction al) auto

lemma filter_snd_pos: "\<exists>e \<in> set al. snd e \<Longrightarrow> 0 < length (filter snd al)"
  by (induction al) auto

lemma filter_snd_zero: "\<forall>e \<in> set al. \<not> snd e \<Longrightarrow> length (filter snd al) = 0"
  by (induction al) auto

text \<open>
  Claim C9, as stated, fails: \<^verbatim>\<open>resetProcessingLocks\<close> keeps no time and clears
  every held lock. A sweep that comes right after a job has started clears the lock of
  that job while its call is still awaited.
\<close>

theorem sweep_clears_fresh_lock:
  "(let s1 = run [Inbound ''0xa1''] (sys_init two_tokens (Some 7) 2); s2 = step Sweep s1 in
      awaiting s1 = [Call ''0xa1'' True] \<and> tokenProcessing_get s1 ''0xa1'' \<and>
      awaiting s2 = [Call ''0xa1'' True] \<and> \<not> tokenProcessing_get s2 ''0xa1'')"
  by code_simp

text \<open>
  Claim C9, amended. After \<^verbatim>\<open>resetProcessingLocks\<close> no lock is held, whatever the
  age of the run that held it, and the keys of the table are unchanged. When some lock
  was held the sweep logs the number of locks cleared and counts one
  \<^verbatim>\<open>lock_reset\<close>; otherwise it changes nothing.
\<close>

theorem resetProcessingLocks_clears_every_lock:
  "(\<forall>addr. \<not> tokenProcessing_get (resetProcessingLocks s) addr) \<and>
   map fst (tokenProcessing (resetProcessingLocks s)) = map fst (tokenProcessing s) \<and>
   (if \<exists>e \<in> set (tokenProcessing s). snd e
    then processingLockResets (bot_metrics (resetProcessingLocks s)) =
           processingLockResets (bot_metrics s) + 1 \<and>
         trace (resetProcessingLocks s) =
           trace s @ [Log_LockReset (length (filter snd (tokenProcessing s)))]
    else resetProcessingLocks s = s)"
proof -
  have a: "\<not> tokenProcessing_get (resetProcessingLocks s) addr" for addr
    by (simp add: resetProcessingLocks_def tokenProcessing_get_def Let_def emit_def reset_map_of)
  have b: "map fst (tokenProcessing (resetProcessingLocks s)) = map fst (tokenProcessing s)"
    by (simp add: resetProcessingLocks_def Let_def emit_def case_prod_beta comp_def)
  have c: "processingLockResets (bot_metrics (resetProcessingLocks s)) =
           processingLockResets (bot_metrics s) + 1 \<and>
         trace (resetProcessingLocks s) =
           trace s @ [Log_LockReset (length (filter snd (tokenProcessing s)))]"
    if "\<exists>e \<in> set (tokenProcessing s). snd e"
  proof -
    have "length (filter snd (tokenProcessing s)) > 0" using that by (rule filter_snd_pos)
    then show ?thesis
      by (simp add: resetProcessingLocks_def Let_def emit_def updateMetrics_def)
  qed
  have d: "resetProcessingLocks s = s" if h: "\<not> (\<exists>e \<in> set (tokenProcessing s). snd e)"
  proof -
    have all: "\<forall>e \<in> set (tokenProcessing s). \<not> snd e" using h by blast
    then have z: "length (filter snd (tokenProcessing s)) = 0" by (rule filter_snd_zero)
    from all have "map (\<lambda>(address, isProcessing). (address, if isProcessing then False else isProcessing))
       (tokenProcessing s) = tokenProcessing s" by (rule reset_map_id)
    then show ?thesis using z by (simp add: resetProcessingLocks_def Let_def)
  qed
  show ?thesis
  proof (cases "\<exists>e \<in> set (tokenProcessing s). snd e")
    case True
    have "\<forall>addr. \<not> tokenProcessing_get (resetProcessingLocks s) addr" using a by blast
    then show ?thesis using True b c [OF True] by simp
  next
    case False
    have "\<forall>addr. \<not> tokenProcessing_get (resetProcessingLocks s) addr" using a by blast
    then show ?thesis using False b d [OF False] by simp
  qed
qed

theorem resetProcessingLocks_clears_every_lock_witness:
  "(let s1 = run [Inbound ''0xa1''] (sys_init two_tokens (Some 7) 2); s2 = resetProcessingLocks s1 in
      tokenProcessing s1 = [(''0xa1'', True), (''0xb2'', False)] \<and>
      tokenProcessing s2 = [(''0xa1'', False), (''0xb2'', False)] \<and>
      processingLockResets (bot_metrics s2) = 1 \<and> trace s2 = [Log_LockReset 1])"
proof -
  let ?s1 = "run [Inbound ''0xa1''] (sys_init two_tokens (Some 7) 2)"
  have ev: "tokenProcessing ?s1 = [(''0xa1'', True), (''0xb2'', False)] \<and>
    tokenProcessing (resetProcessingLocks ?s1) = [(''0xa1'', False), (''0xb2'', False)] \<and>
    processingLockResets (bot_metrics ?s1) = 0 \<and> trace ?s1 = []"
    by code_simp
  then have ex: "\<exists>e \<in> set (tokenProcessing ?s1). snd e" by simp
  have "processingLockResets (bot_metrics (resetProcessingLocks ?s1)) =
           processingLockResets (bot_metrics ?s1) + 1 \<and>
         trace (resetProcessingLocks ?s1) =
           trace ?s1 @ [Log_LockReset (length (filter snd (tokenProcessing ?s1)))]"
    using resetProcessingLocks_clears_every_lock [of ?s1] ex by presburger
  then show ?thesis using ev by (simp add: Let_def)
qed

text \<open>
  In the running program the guard of \<^verbatim>\<open>transferWithRetry\<close> never stops a call: a
  lock is held only for the asset of the call in flight, and a job is started only when
  no call is in flight.
\<close>

lemma tokenProcessing_get_reset: "\<not> tokenProcessing_get (resetProcessingLocks s) a"
  by (simp add: resetProcessingLocks_def tokenProcessing_get_def Let_def emit_def reset_map_of)

lemma process_loop_locks:
  assumes "awaiting s = []" "\<forall>addr. \<not> tokenProcessing_get s addr"
  shows "locks_inv (process_loop s)"
proof (cases "txQueue_queue s")
  case Nil
  then show ?thesis using assms by (simp add: process_loop_def locks_inv_def tokenProcessing_get_def)
next
  case (Cons job rest)
  then show ?thesis using assms
    by (auto simp: process_loop_def locks_inv_def transferWithRetry_begin_def Let_def
          tokenProcessing_get_set)
qed

lemma locks_inv_frame:
  "awaiting s' = awaiting s \<Longrightarrow> tokenProcessing s' = tokenProcessing s \<Longrightarrow>
   locks_inv s \<Longrightarrow> locks_inv s'"
  by (simp add: locks_inv_def tokenProcessing_get_def)

lemma enqueue_locks:
  assumes "queue_inv s" "locks_inv s"
  shows "locks_inv (enqueue job s)"
proof (cases "txQueue_processing s")
  case True
  have "locks_inv (s\<lparr>txQueue_queue := txQueue_queue s @ [job], accepted := accepted s @ [job]\<rparr>)"
    using assms(2) by (rule locks_inv_frame [rotated 2]) simp_all
  then show ?thesis using True by (simp add: enqueue_def Let_def)
next
  case False
  then have aw: "awaiting s = []" using assms(1) by (simp add: queue_inv_def)
  have nl: "\<not> tokenProcessing_get s addr" for addr
    using assms(2) aw by (simp add: locks_inv_def)
  let ?s1 = "s\<lparr>txQueue_queue := txQueue_queue s @ [job],
               accepted := accepted s @ [job], txQueue_processing := True\<rparr>"
  have "locks_inv (process_loop ?s1)"
    using aw nl by (intro process_loop_locks) simp_all
  then show ?thesis using False by (simp add: enqueue_def process_def Let_def)
qed

lemma settle_locks:
  assumes "queue_inv s" "locks_inv s"
  shows "locks_inv (settle i resolved s)"
proof (cases "i < length (awaiting s)")
  case False
  then show ?thesis using assms(2) by (simp add: settle_def)
next
  case True
  then have i0: "i = 0" and len: "length (awaiting s) = 1"
    using assms(1) by (simp_all add: queue_inv_def)
  then obtain c where aw: "awaiting s = [c]" by (cases "awaiting s") simp_all
  have "\<exists>addr. c = Call addr True" using assms(2) aw by (simp add: locks_inv_def)
  then obtain addr where c: "c = Call addr True" by blast
  have held: "tokenProcessing_get s a \<Longrightarrow> a = addr" for a
    using assms(2) aw c by (simp add: locks_inv_def)
  let ?s2 = "tokenProcessing_set addr False (s\<lparr>awaiting := []\<rparr>)"
  have nl: "\<not> tokenProcessing_get ?s2 a" for a
    using held [of a] by (auto simp: tokenProcessing_get_set)
  have a: "locks_inv ?s2" using nl by (simp add: locks_inv_def)
  have b: "locks_inv (process_loop ?s2)" using nl by (intro process_loop_locks) simp_all
  show ?thesis using i0 aw c a b by (simp add: settle_def Let_def)
qed

lemma setup_locks_false:
  "map_of al a \<noteq> Some True \<Longrightarrow>
   map_of (foldl (\<lambda>m (address, info). AList.update (toLowerCase address) False m) al tokens) a
     \<noteq> Some True"
proof (induction tokens arbitrary: al)
  case Nil
  then show ?case by simp
next
  case (Cons t tokens)
  obtain address info where t: "t = (address, info)" by (cases t)
  have "map_of (AList.update (toLowerCase address) False al) a \<noteq> Some True"
    using Cons.prems by (simp add: update_conv')
  then show ?case using Cons.IH t by simp
qed

lemma tokenProcessing_get_cleanup: "\<not> tokenProcessing_get (cleanupContracts s) a"
  by (simp add: tokenProcessing_get_def cleanupContracts_def)

lemma tokenProcessing_get_setup:
  "tokenProcessing_get (setupContracts_loop s) a \<Longrightarrow> tokenProcessing_get s a"
  using setup_locks_false [of "tokenProcessing s" a "config_tokens s"]
  by (auto simp: tokenProcessing_get_def setupContracts_loop_def)

lemma step_locks:
  assumes "queue_inv s" "locks_inv s"
  shows "locks_inv (step e s)"
proof (cases e)
  case Sweep
  then show ?thesis using assms(2)
    by (simp add: locks_inv_def tokenProcessing_get_reset)
next
  case Cleanup
  have "awaiting (cleanupContracts s) = awaiting s" by (simp add: cleanupContracts_def)
  then show ?thesis using Cleanup assms(2)
    by (simp add: locks_inv_def tokenProcessing_get_cleanup)
next
  case Setup
  have "awaiting (setupContracts_loop s) = awaiting s" by (simp add: setupContracts_loop_def)
  then show ?thesis using Setup assms(2) tokenProcessing_get_setup [of s]
    by (auto simp: locks_inv_def)
next
  case NonceReset
  then show ?thesis using assms(2)
    by (simp add: locks_inv_def tokenProcessing_get_def)
next
  case (Inbound a)
  then show ?thesis using assms enqueue_locks
    by (simp add: enqueueTransfer_def Let_def)
next
  case (Settled i resolved)
  then show ?thesis using assms settle_locks by simp
qed

lemma run_locks: "queue_inv s \<Longrightarrow> locks_inv s \<Longrightarrow> locks_inv (run es s)"
proof (induction es arbitrary: s)
  case Nil
  then show ?case by simp
next
  case (Cons e es)
  have "queue_inv (step e s)" using Cons.prems(1) by (rule step_inv)
  moreover have "locks_inv (step e s)" using Cons.prems by (rule step_locks)
  ultimately have "locks_inv (run es (step e s))" by (rule Cons.IH)
  then show ?case by simp
qed

lemma init_no_lock: "\<not> tokenProcessing_get (sys_init tokens nonce0 n) a"
  using setup_locks_false [of "[]" a tokens]
  by (simp add: tokenProcessing_get_def sys_init_def)

lemma guard_never_stops_a_call:
  "\<forall>c \<in> set (awaiting (run es (sys_init tokens nonce0 n))). \<exists>addr. c = Call addr True"
proof -
  have "awaiting (sys_init tokens nonce0 n) = []" by (simp add: sys_init_def)
  then have "locks_inv (sys_init tokens nonce0 n)"
    using init_no_lock by (simp add: locks_inv_def)
  then have "locks_inv (run es (sys_init tokens nonce0 n))"
    using sys_init_inv by (intro run_locks)
  then show ?thesis by (simp add: locks_inv_def)
qed








section \<open>Properties of the transfer with retry\<close>

text \<open>
  The loop is unfolded one pass at a time, by the four lemmas below, and never by the
  simplifier on its own.
\<close>

declare retry_loop.simps [simp del]

lemma emit_fields [simp]:
  "trace (emit es s) = trace s @ es"
  "bot_metrics (emit es s) = bot_metrics s"
  "txQueue_nonce (emit es s) = txQueue_nonce s"
  "tokenProcessing (emit es s) = tokenProcessing s"
  by (simp_all add: emit_def)





lemma updateMetrics_rpc_failure_counters:
  "tx_counters (updateMetrics ''rpc_failure'' b m) = tx_counters m"
  by (simp add: updateMetrics_def tx_counters_def)

lemma callWithFallback_from_counters:
  "tx_counters (snd (callWithFallback_from fn n i m)) = tx_counters m"
proof (induction fn n i m rule: callWithFallback_from.induct)
  case (1 fn n i m)
  show ?case
  proof (cases "i < n")
    case False
    then show ?thesis by simp
  next
    case True
    show ?thesis
    proof (cases "fn i")
      case (Inr v)
      then show ?thesis using True by simp
    next
      case (Inl err)
      show ?thesis
      proof (cases "i = n - 1")
        case True
        then show ?thesis using Inl \<open>i < n\<close>
          by (simp add: Let_def updateMetrics_rpc_failure_counters)
      next
        case False
        then show ?thesis using Inl \<open>i < n\<close> "1.IH" [OF \<open>i < n\<close> Inl refl False]
          by (simp add: Let_def updateMetrics_rpc_failure_counters)
      qed
    qed
  qed
qed

lemma with_fallback_counters:
  "with_fallback c fn n m = (r, m') \<Longrightarrow> tx_counters m' = tx_counters m"
  using callWithFallback_from_counters [of fn n 0 m]
  by (auto simp: with_fallback_def callWithFallback_def split: sum.splits outcome.splits prod.splits)

lemma try_attempt_frame:
  assumes "try_attempt a sy nonce gp s = (res, gp', s')"
  shows "tokenProcessing s' = tokenProcessing s \<and> txQueue_nonce s' = txQueue_nonce s \<and>
         tx_counters (bot_metrics s') = tx_counters (bot_metrics s)"
  using assms
  by (auto simp: try_attempt_def Let_def
      split: prod.splits sum.splits option.splits dest!: with_fallback_counters)


lemma retry_loop_exhausted:
  "\<not> attempt < maxRetries \<Longrightarrow>
   retry_loop env sy bal attempt nonce gp s = retries_exhausted sy s"
  by (subst retry_loop.simps) simp

lemma retry_loop_success:
  "attempt < maxRetries \<Longrightarrow>
   try_attempt (attempt_io env (attempt + 1)) sy nonce gp s = (Inr h, gp1, s1) \<Longrightarrow>
   retry_loop env sy bal attempt nonce gp s = attempt_succeeded sy bal h nonce s1"
  by (subst retry_loop.simps) simp

lemma retry_loop_done:
  "attempt < maxRetries \<Longrightarrow>
   try_attempt (attempt_io env (attempt + 1)) sy nonce gp s = (Inl m, gp1, s1) \<Longrightarrow>
   on_attempt_error (attempt_io env (attempt + 1)) sy (attempt + 1) m nonce gp1 s1 = Done r s2 \<Longrightarrow>
   retry_loop env sy bal attempt nonce gp s = (r, s2)"
  by (subst retry_loop.simps) simp

lemma retry_loop_retry:
  "attempt < maxRetries \<Longrightarrow>
   try_attempt (attempt_io env (attempt + 1)) sy nonce gp s = (Inl m, gp1, s1) \<Longrightarrow>
   on_attempt_error (attempt_io env (attempt + 1)) sy (attempt + 1) m nonce gp1 s1 = Retry n' g' s2 \<Longrightarrow>
   retry_loop env sy bal attempt nonce gp s = retry_loop env sy bal (attempt + 1) n' g' s2"
  by (subst retry_loop.simps) simp


lemma on_attempt_error_Retry:
  "on_attempt_error a sy k m nonce gp s = Retry n' g' s1 \<Longrightarrow>
   \<not> insufficient_funds_error m \<and>
   (\<exists>d. trace s1 = trace s @ [Debug_AttemptFailed sy k m, Delay d]) \<and>
   tx_counters (bot_metrics s1) = tx_counters (bot_metrics s) \<and>
   (\<not> str_includes m ''nonce too low'' \<longrightarrow> n' = nonce + 1)"
  by (auto simp: on_attempt_error_def bump_and_delay_def insufficient_funds_error_def Let_def
      split: if_splits sum.splits option.splits)




lemma starting_nonce_frame [simp]:
  "starting_nonce env (tokenProcessing_set addr v s) = starting_nonce env s"
  "starting_nonce env (s\<lparr>bot_metrics := m\<rparr>) = starting_nonce env s"
  by (simp_all add: starting_nonce_def tokenProcessing_set_def)

lemma tokenProcessing_set_frame [simp]:
  "trace (tokenProcessing_set addr v s) = trace s"
  "bot_metrics (tokenProcessing_set addr v s) = bot_metrics s"
  "txQueue_nonce (tokenProcessing_set addr v s) = txQueue_nonce s"
  "tokenContracts (tokenProcessing_set addr v s) = tokenContracts s"
  "providers_length (tokenProcessing_set addr v s) = providers_length s"
  by (simp_all add: tokenProcessing_set_def)



text \<open>The rewrite rules that run the function on a concrete input.\<close>

lemmas transfer_eval =
  transferWithRetry_def transfer_body_def ensure_nonce_def retry_loop.simps
  try_attempt_def on_attempt_error_def bump_and_delay_def attempt_succeeded_def
  retries_exhausted_def with_fallback_def callWithFallback_def callWithFallback_from.simps
  emit_def tokenProcessing_get_def tokenProcessing_set_def updateMetrics_def maxRetries_def
  bot_init_def two_tokens_def metrics_init_def attempt_ok_def attempt_send_fails_def
  job_failing_first_def toLowerCase_def lower_char_def TypeError_undefined_def Let_def

lemma eval_success_after_two_failures:
  "transferWithRetry (job_failing_first 2 ''timeout'') ''0xA1'' (bot_init two_tokens (Some 7) 2) = (r, s') \<Longrightarrow>
   r = Ret_true \<and> txQueue_nonce s' = Some 10 \<and>
   trace s' = [Debug_AttemptFailed ''USDC'' 1 ''timeout'', Delay 2000,
        Debug_AttemptFailed ''USDC'' 2 ''timeout'', Delay 4000,
        Sent 9 120 60000 ''0xh1'', Log_Tx ''USDC'' ''0xh1'' 120,
        Log_Confirmed ''USDC'' ''0xh1'', Notify_Success ''USDC'' 1000 ''0xh1'']"
  by (auto simp: transfer_eval cong: prod.case_cong_weak)

lemma transferWithRetry_guard:
  "tokenProcessing_get s (toLowerCase a) \<Longrightarrow> transferWithRetry env a s = (Ret_undefined, s)"
  by (simp add: transferWithRetry_def Let_def)

lemma transferWithRetry_releases_taken_lock:
  "\<not> tokenProcessing_get s (toLowerCase a) \<Longrightarrow>
   map_of (tokenProcessing (snd (transferWithRetry env a s))) (toLowerCase a) = Some False"
  by (auto simp: transferWithRetry_def Let_def tokenProcessing_set_def update_conv'
      split: prod.splits)

lemma idle_no_lock:
  "awaiting (run es (sys_init tokens nonce0 n)) = [] \<Longrightarrow>
   \<not> tokenProcessing_get (run es (sys_init tokens nonce0 n)) addr"
proof -
  have "awaiting (sys_init tokens nonce0 n) = []" by (simp add: sys_init_def)
  then have "locks_inv (sys_init tokens nonce0 n)"
    using init_no_lock by (simp add: locks_inv_def)
  then have "locks_inv (run es (sys_init tokens nonce0 n))"
    using sys_init_inv by (intro run_locks)
  then show "awaiting (run es (sys_init tokens nonce0 n)) = [] \<Longrightarrow>
      \<not> tokenProcessing_get (run es (sys_init tokens nonce0 n)) addr"
    by (auto simp: locks_inv_def)
qed

text \<open>
  Claim C4. A call of \<^verbatim>\<open>transferWithRetry\<close> that takes the lock of its asset ends,
  whatever the chain answers and however the body ends (\<^verbatim>\<open>true\<close>, \<^verbatim>\<open>false\<close>, no
  value, or an error thrown out of the body), with that lock \<^verbatim>\<open>false\<close>: the
  \<^verbatim>\<open>finally\<close> block runs on every way out of the body. And every call the program
  makes takes the lock: in every state reached from start-up the calls in flight went
  past the guard, and when no call is in flight, the only moment at which \<^verbatim>\<open>process\<close>
  starts one, no lock is held, so that a call for any asset made then ends with its lock
  \<^verbatim>\<open>false\<close>.
\<close>

theorem transferWithRetry_releases_lock:
  "(\<not> tokenProcessing_get s (toLowerCase a) \<longrightarrow>
      map_of (tokenProcessing (snd (transferWithRetry env a s))) (toLowerCase a) = Some False) \<and>
   (let m = run es (sys_init tokens nonce0 n) in
      (\<forall>c \<in> set (awaiting m). \<exists>addr. c = Call addr True) \<and>
      (awaiting m = [] \<and> tokenProcessing b = tokenProcessing m \<longrightarrow>
         map_of (tokenProcessing (snd (transferWithRetry env a b))) (toLowerCase a) = Some False))"
proof -
  let ?m = "run es (sys_init tokens nonce0 n)"
  have one: "\<not> tokenProcessing_get s (toLowerCase a) \<longrightarrow>
      map_of (tokenProcessing (snd (transferWithRetry env a s))) (toLowerCase a) = Some False"
    by (simp add: transferWithRetry_releases_taken_lock)
  have two: "\<forall>c \<in> set (awaiting ?m). \<exists>addr. c = Call addr True"
    by (rule guard_never_stops_a_call)
  have three: "map_of (tokenProcessing (snd (transferWithRetry env a b))) (toLowerCase a) = Some False"
    if h: "awaiting ?m = []" "tokenProcessing b = tokenProcessing ?m"
  proof -
    have "\<not> tokenProcessing_get ?m (toLowerCase a)" using h(1) by (rule idle_no_lock)
    then have "\<not> tokenProcessing_get b (toLowerCase a)"
      using h(2) by (simp add: tokenProcessing_get_def)
    then show ?thesis by (rule transferWithRetry_releases_taken_lock)
  qed
  show ?thesis using one two three by (simp add: Let_def)
qed

theorem transferWithRetry_releases_lock_witness:
  "map_of (tokenProcessing (snd (transferWithRetry (job_failing_first 2 ''timeout'') ''0xA1''
      (bot_init two_tokens (Some 7) 2)))) ''0xa1'' = Some False \<and>
   fst (transferWithRetry (job_failing_first 2 ''timeout'') ''0xA1''
      (bot_init two_tokens (Some 7) 2)) = Ret_true \<and>
   map_of (tokenProcessing (snd (transferWithRetry
      ((job_failing_first 0 ''timeout'')\<lparr>initNonce_count := Inl ''network error''\<rparr>) ''0xA1''
      (bot_init two_tokens None 2)))) ''0xa1'' = Some False \<and>
   fst (transferWithRetry
      ((job_failing_first 0 ''timeout'')\<lparr>initNonce_count := Inl ''network error''\<rparr>) ''0xA1''
      (bot_init two_tokens None 2)) = Throw ''network error'' \<and>
   awaiting (run [Inbound ''0xb2'', Settled 0 True] (sys_init two_tokens (Some 7) 2)) = []"
proof -
  let ?s = "bot_init two_tokens (Some 7) 2"
  let ?z = "bot_init two_tokens None 2"
  let ?e1 = "job_failing_first 2 ''timeout''"
  let ?e2 = "(job_failing_first 0 ''timeout'')\<lparr>initNonce_count := Inl ''network error''\<rparr>"
  let ?es = "[Inbound ''0xb2'', Settled 0 True]"
  let ?m = "run ?es (sys_init two_tokens (Some 7) 2)"
  have l: "toLowerCase ''0xA1'' = ''0xa1''" by (simp add: toLowerCase_def lower_char_def)
  have idle: "awaiting ?m = []" by code_simp
  have same: "tokenProcessing ?s = tokenProcessing ?m" by code_simp
  have f2: "\<not> tokenProcessing_get ?z (toLowerCase ''0xA1'')"
    unfolding l by (simp add: tokenProcessing_get_def bot_init_def two_tokens_def toLowerCase_def lower_char_def)
  have a: "map_of (tokenProcessing (snd (transferWithRetry ?e1 ''0xA1'' ?s))) ''0xa1'' = Some False"
    using transferWithRetry_releases_lock
            [where es = ?es and tokens = two_tokens and ?nonce0.0 = "Some 7" and n = 2
               and b = ?s and env = ?e1 and a = "''0xA1''"]
          idle same unfolding l by (simp add: Let_def)
  have b: "map_of (tokenProcessing (snd (transferWithRetry ?e2 ''0xA1'' ?z))) ''0xa1'' = Some False"
    using transferWithRetry_releases_lock [where s = ?z and a = "''0xA1''" and env = ?e2] f2
    unfolding l by blast
  have c: "fst (transferWithRetry ?e1 ''0xA1'' ?s) = Ret_true"
    using eval_success_after_two_failures [of "fst (transferWithRetry ?e1 ''0xA1'' ?s)" "snd (transferWithRetry ?e1 ''0xA1'' ?s)"]
    by simp
  have d: "fst (transferWithRetry ?e2 ''0xA1'' ?z) = Throw ''network error''"
    by (simp add: transfer_eval cong: prod.case_cong_weak)
  show ?thesis using a b c d idle by blast
qed

lemma loop_after_retry_loop:
  "loop_after k env sy attempt nonce gp s = Some (attempt', nonce', gp', s') \<Longrightarrow>
   retry_loop env sy bal attempt nonce gp s = retry_loop env sy bal attempt' nonce' gp' s'"
proof (induction k arbitrary: attempt nonce gp s)
  case 0
  then show ?case by simp
next
  case (Suc k)
  from Suc.prems have lt: "attempt < maxRetries" by (simp split: if_splits)
  obtain res gp1 s1 where ta:
    "try_attempt (attempt_io env (attempt + 1)) sy nonce gp s = (res, gp1, s1)"
    by (cases "try_attempt (attempt_io env (attempt + 1)) sy nonce gp s") auto
  from Suc.prems lt ta obtain m where res: "res = Inl m"
    by (cases res) simp_all
  from Suc.prems lt ta res obtain n2 g2 s2 where
    oe: "on_attempt_error (attempt_io env (attempt + 1)) sy (attempt + 1) m nonce gp1 s1 = Retry n2 g2 s2"
    by (cases "on_attempt_error (attempt_io env (attempt + 1)) sy (attempt + 1) m nonce gp1 s1")
       simp_all
  have rest: "loop_after k env sy (attempt + 1) n2 g2 s2 = Some (attempt', nonce', gp', s')"
    using Suc.prems lt ta res oe by simp
  have "retry_loop env sy bal attempt nonce gp s = retry_loop env sy bal (attempt + 1) n2 g2 s2"
    using lt ta res oe by (simp add: retry_loop_retry)
  then show ?case using Suc.IH [OF rest] by simp
qed

lemma loop_after_frame:
  "loop_after k env sy attempt nonce gp s = Some (attempt', nonce', gp', s') \<Longrightarrow>
   attempt' = attempt + k \<and> tx_counters (bot_metrics s') = tx_counters (bot_metrics s)"
proof (induction k arbitrary: attempt nonce gp s)
  case 0
  then show ?case by simp
next
  case (Suc k)
  from Suc.prems have lt: "attempt < maxRetries" by (simp split: if_splits)
  obtain res gp1 s1 where ta:
    "try_attempt (attempt_io env (attempt + 1)) sy nonce gp s = (res, gp1, s1)"
    by (cases "try_attempt (attempt_io env (attempt + 1)) sy nonce gp s") auto
  from Suc.prems lt ta obtain m where res: "res = Inl m"
    by (cases res) simp_all
  from Suc.prems lt ta res obtain n2 g2 s2 where
    oe: "on_attempt_error (attempt_io env (attempt + 1)) sy (attempt + 1) m nonce gp1 s1 = Retry n2 g2 s2"
    by (cases "on_attempt_error (attempt_io env (attempt + 1)) sy (attempt + 1) m nonce gp1 s1")
       simp_all
  have rest: "loop_after k env sy (attempt + 1) n2 g2 s2 = Some (attempt', nonce', gp', s')"
    using Suc.prems lt ta res oe by simp
  have c1: "tx_counters (bot_metrics s1) = tx_counters (bot_metrics s)"
    using try_attempt_frame [OF ta] by simp
  have c2: "tx_counters (bot_metrics s2) = tx_counters (bot_metrics s1)"
    using on_attempt_error_Retry [OF oe] by simp
  show ?case using Suc.IH [OF rest] c1 c2 by simp
qed

lemma on_attempt_error_insufficient:
  "insufficient_funds_error m \<Longrightarrow>
   on_attempt_error a sy k m nonce gp s =
     Done Ret_false
       ((emit [Debug_AttemptFailed sy k m, Log_InsufficientFunds, Notify_InsufficientFunds] s)
          \<lparr>bot_metrics := updateMetrics ''transaction'' False (bot_metrics s)\<rparr>)"
  by (simp add: on_attempt_error_def insufficient_funds_error_def Let_def emit_def)

lemma ensure_nonce_metrics:
  "ensure_nonce env s = Inr (n0, s2) \<Longrightarrow> bot_metrics s2 = bot_metrics s"
  by (auto simp: ensure_nonce_def split: option.splits nat.splits sum.splits)

text \<open>
  Claim C7, as stated, fails for an error whose message includes 'insufficient funds'
  together with a phrase that the \<^verbatim>\<open>catch\<close> block tests first: the message is taken
  for a nonce error, the pending count is read again and the next attempt is made.
\<close>

theorem transferWithRetry_both_phrases_retried:
  "(case transferWithRetry (job_failing_first 1 ''nonce too low: insufficient funds for gas'')
           ''0xA1'' (bot_init two_tokens (Some 7) 2) of
      (r, s') \<Rightarrow>
        str_includes ''nonce too low: insufficient funds for gas'' ''insufficient funds'' \<and>
        failure_messages (trace s') = [''nonce too low: insufficient funds for gas''] \<and>
        r = Ret_true \<and> map fst (sent_transactions (trace s')) = [21] \<and>
        tx_counters (bot_metrics s') = (1, 1, 0, 0))"
  by (simp add: transfer_eval tx_counters_def cong: prod.case_cong_weak)

text \<open>
  Claim C7, amended. When the \<^verbatim>\<open>try\<close> block of a pass fails with an error whose
  message includes 'insufficient funds' and neither 'nonce too low' nor 'replacement
  transaction underpriced', then, whatever the number \<open>k < 5\<close> of passes that failed
  and went on before it, the call returns \<^verbatim>\<open>false\<close> at once. The state it leaves is
  the state in which the pass failed with the line of the failed attempt, the log line
  and the notification added, one failed transaction counted and the lock of the asset
  released: no further pass, send or delay follows.
\<close>

theorem transferWithRetry_insufficient_funds_terminal:
  assumes "\<not> tokenProcessing_get s (toLowerCase a)"
    and "tokenContracts s (toLowerCase a) = Some info"
    and "with_fallback (balanceOf_current env) (balanceOf_on env) (providers_length s)
           (bot_metrics s) = (Inr (Some bal), m1)"
    and "0 < bal"
    and "ensure_nonce env ((tokenProcessing_set (toLowerCase a) True s)\<lparr>bot_metrics := m1\<rparr>)
           = Inr (n0, s2)"
    and "loop_after k env (symbol info) 0 n0 None s2 = Some (k, nonce, gp, sk)"
    and "k < maxRetries"
    and "try_attempt (attempt_io env (k + 1)) (symbol info) nonce gp sk = (Inl m, gp1, s1)"
    and "insufficient_funds_error m"
  shows "transferWithRetry env a s =
           (Ret_false,
            tokenProcessing_set (toLowerCase a) False
              ((emit [Debug_AttemptFailed (symbol info) (k + 1) m, Log_InsufficientFunds,
                      Notify_InsufficientFunds] s1)
                 \<lparr>bot_metrics := updateMetrics ''transaction'' False (bot_metrics s1)\<rparr>)) \<and>
         tx_counters (bot_metrics (snd (transferWithRetry env a s))) =
           failed_once (tx_counters (bot_metrics s)) \<and>
         \<not> tokenProcessing_get (snd (transferWithRetry env a s)) (toLowerCase a)"
proof -
  let ?addr = "toLowerCase a"
  let ?sl = "tokenProcessing_set ?addr True s"
  let ?fin = "(emit [Debug_AttemptFailed (symbol info) (k + 1) m, Log_InsufficientFunds,
                      Notify_InsufficientFunds] s1)
                 \<lparr>bot_metrics := updateMetrics ''transaction'' False (bot_metrics s1)\<rparr>"
  have loop: "retry_loop env (symbol info) bal 0 n0 None s2 = (Ret_false, ?fin)"
  proof -
    have "retry_loop env (symbol info) bal 0 n0 None s2 =
          retry_loop env (symbol info) bal k nonce gp sk"
      using assms(6) by (rule loop_after_retry_loop)
    also have "\<dots> = (Ret_false, ?fin)"
      using assms(7) assms(8) on_attempt_error_insufficient [OF assms(9)]
      by (intro retry_loop_done) simp_all
    finally show ?thesis .
  qed
  have body: "transfer_body env ?addr ?sl = (Ret_false, ?fin)"
    using assms(2-5) loop by (simp add: transfer_body_def)
  have run: "transferWithRetry env a s = (Ret_false, tokenProcessing_set ?addr False ?fin)"
    using assms(1) body by (simp add: transferWithRetry_def Let_def)
  have c1: "tx_counters (bot_metrics s1) = tx_counters (bot_metrics sk)"
    using try_attempt_frame [OF assms(8)] by simp
  have c2: "tx_counters (bot_metrics sk) = tx_counters (bot_metrics s2)"
    using loop_after_frame [OF assms(6)] by simp
  have c3: "bot_metrics s2 = m1"
    using ensure_nonce_metrics [OF assms(5)] by simp
  have c4: "tx_counters m1 = tx_counters (bot_metrics s)"
    using assms(3) by (rule with_fallback_counters)
  have "tx_counters (updateMetrics ''transaction'' False (bot_metrics s1)) =
        failed_once (tx_counters (bot_metrics s1))"
    by (simp add: tx_counters_def failed_once_def updateMetrics_def)
  then have cnt: "tx_counters (bot_metrics (tokenProcessing_set ?addr False ?fin)) =
        failed_once (tx_counters (bot_metrics s))"
    using c1 c2 c3 c4 by simp
  have lock: "\<not> tokenProcessing_get (tokenProcessing_set ?addr False ?fin) ?addr"
    by (simp add: tokenProcessing_get_def tokenProcessing_set_def update_conv')
  show ?thesis using run cnt lock by simp
qed

theorem transferWithRetry_insufficient_funds_terminal_witness:
  "fst (transferWithRetry (job_second_pass_fails ''err: insufficient funds for gas'') ''0xA1''
          (bot_init two_tokens (Some 7) 2)) = Ret_false \<and>
   tx_counters (bot_metrics (snd (transferWithRetry
          (job_second_pass_fails ''err: insufficient funds for gas'') ''0xA1''
          (bot_init two_tokens (Some 7) 2)))) = (1, 0, 1, 1) \<and>
   \<not> tokenProcessing_get (snd (transferWithRetry
          (job_second_pass_fails ''err: insufficient funds for gas'') ''0xA1''
          (bot_init two_tokens (Some 7) 2))) ''0xa1'' \<and>
   trace (snd (transferWithRetry
          (job_second_pass_fails ''err: insufficient funds for gas'') ''0xA1''
          (bot_init two_tokens (Some 7) 2))) =
     [Debug_AttemptFailed ''USDC'' 1 ''timeout'', Delay 2000,
      Debug_AttemptFailed ''USDC'' 2 ''err: insufficient funds for gas'',
      Log_InsufficientFunds, Notify_InsufficientFunds]"
proof -
  let ?m = "''err: insufficient funds for gas''"
  let ?env = "job_second_pass_fails ?m"
  let ?s = "bot_init two_tokens (Some 7) 2"
  let ?info = "\<lparr>decimals = 6, symbol = ''USDC''\<rparr>"
  let ?sl = "(tokenProcessing_set (toLowerCase ''0xA1'') True ?s)\<lparr>bot_metrics := bot_metrics ?s\<rparr>"
  have l: "toLowerCase ''0xA1'' = ''0xa1''" by (simp add: toLowerCase_def lower_char_def)
  have h1: "\<not> tokenProcessing_get ?s (toLowerCase ''0xA1'')"
    unfolding l by (simp add: tokenProcessing_get_def bot_init_def two_tokens_def
        toLowerCase_def lower_char_def)
  have h2: "tokenContracts ?s (toLowerCase ''0xA1'') = Some ?info"
    unfolding l by (simp add: bot_init_def two_tokens_def toLowerCase_def lower_char_def)
  have h3: "with_fallback (balanceOf_current ?env) (balanceOf_on ?env) (providers_length ?s)
           (bot_metrics ?s) = (Inr (Some 1000), bot_metrics ?s)"
    by (simp add: with_fallback_def job_second_pass_fails_def)
  have h4: "(0::nat) < 1000" by simp
  have h5: "ensure_nonce ?env ?sl = Inr (7, ?sl)"
    by (simp add: ensure_nonce_def bot_init_def tokenProcessing_set_def)
  have "\<exists>nonce gp sk. loop_after (Suc 0) ?env (symbol ?info) 0 7 None ?sl = Some (Suc 0, nonce, gp, sk) \<and>
          providers_length sk = 2"
    unfolding l
    by (simp add: try_attempt_def on_attempt_error_def bump_and_delay_def with_fallback_def
        callWithFallback_def emit_def tokenProcessing_set_def updateMetrics_def maxRetries_def
        bot_init_def two_tokens_def metrics_init_def attempt_ok_def attempt_send_fails_def
        job_second_pass_fails_def Let_def cong: prod.case_cong_weak)
  then obtain nonce gp sk where
    h6: "loop_after 1 ?env (symbol ?info) 0 7 None ?sl = Some (1, nonce, gp, sk)"
    and pl: "providers_length sk = 2" by auto
  have h7: "(1::nat) < maxRetries" by (simp add: maxRetries_def)
  let ?ta = "try_attempt (attempt_io ?env (1 + 1)) (symbol ?info) nonce gp sk"
  have "fst ?ta = Inl ?m"
    using pl
    by (simp add: try_attempt_def with_fallback_def callWithFallback_def emit_def
        updateMetrics_def attempt_ok_def attempt_send_fails_def
        job_second_pass_fails_def Let_def cong: prod.case_cong_weak)
  then have h8: "?ta = (Inl ?m, fst (snd ?ta), snd (snd ?ta))"
    by (metis prod.collapse)
  have h9: "insufficient_funds_error ?m" by (simp add: insufficient_funds_error_def)
  have c: "failed_once (tx_counters (bot_metrics ?s)) = (1, 0, 1, 1)"
    by (simp add: failed_once_def tx_counters_def bot_init_def metrics_init_def)
  have ev: "trace (snd (transferWithRetry ?env ''0xA1'' ?s)) =
     [Debug_AttemptFailed ''USDC'' 1 ''timeout'', Delay 2000,
      Debug_AttemptFailed ''USDC'' 2 ?m, Log_InsufficientFunds, Notify_InsufficientFunds]"
    by (simp add: transfer_eval job_second_pass_fails_def cong: prod.case_cong_weak)
  note T = transferWithRetry_insufficient_funds_terminal [OF h1 h2 h3 h4 h5 h6 h7 h8 h9]
  have r: "fst (transferWithRetry ?env ''0xA1'' ?s) = Ret_false"
    using T [THEN conjunct1] by (metis fst_conv)
  have rest: "tx_counters (bot_metrics (snd (transferWithRetry ?env ''0xA1'' ?s))) =
          failed_once (tx_counters (bot_metrics ?s)) \<and>
        \<not> tokenProcessing_get (snd (transferWithRetry ?env ''0xA1'' ?s)) (toLowerCase ''0xA1'')"
    using T [THEN conjunct2] .
  show ?thesis using r rest ev unfolding c l by blast
qed




text \<open>
  After a 'nonce too low' error the pending count read from the chain is stored and
  then incremented by line 496 like any other nonce: with a pending count of 20 the next
  attempt uses 21.
\<close>

lemma transferWithRetry_resync_then_increment:
  "(case transferWithRetry (job_failing_first 1 ''nonce too low'') ''0xA1''
           (bot_init two_tokens (Some 7) 2) of
      (r, s') \<Rightarrow> r = Ret_true \<and> getTransactionCount (attempt_send_fails ''nonce too low'') = Inr 20 \<and>
                 map fst (sent_transactions (trace s')) = [21])"
  by (simp add: transfer_eval cong: prod.case_cong_weak)

text \<open>
  What a pass sends and how it ends do not depend on the gas price carried over from
  the pass before: the pass reads the gas price anew.
\<close>

lemma try_attempt_ignores_carried_gas_price:
  "fst (try_attempt a sy nonce gp s) = fst (try_attempt a sy nonce gp' s) \<and>
   snd (snd (try_attempt a sy nonce gp s)) = snd (snd (try_attempt a sy nonce gp' s))"
  by (simp add: try_attempt_def Let_def split: prod.splits sum.splits option.splits)

text \<open>
  Claim C5. With a gas price estimate of 100 on every pass, a balance of 1000 of a
  token of 6 decimals and a starting nonce of 7, two passes fail at
  \<^verbatim>\<open>sendTransaction\<close> with a generic error and the third is confirmed. The
  transaction of the third pass carries the nonce 7 + 2 and the gas price
  100 * 120 div 100 = 120: each pass reads the gas price anew and overwrites the two
  bumps of the \<^verbatim>\<open>catch\<close> block, which the claim counts in (they would give 145).
\<close>

theorem transferWithRetry_third_attempt_gas_price:
  "(case transferWithRetry (job_failing_first 2 ''timeout'') ''0xA1''
           (bot_init two_tokens (Some 7) 2) of
      (r, s') \<Rightarrow> r = Ret_true \<and> failure_messages (trace s') = [''timeout'', ''timeout''] \<and>
                 sent_transactions (trace s') = [(7 + 2, 100 * 120 div 100)]) \<and>
   (100 * 120 div 100) * 110 div 100 * 110 div 100 = (145 :: nat)"
  by (simp add: transfer_eval cong: prod.case_cong_weak)

section \<open>The two models of the transfer agree on the locks\<close>

lemma on_attempt_error_Done_locks:
  "on_attempt_error a sy k m nonce gp s = Done r s1 \<Longrightarrow> tokenProcessing s1 = tokenProcessing s"
  by (auto simp: on_attempt_error_def bump_and_delay_def Let_def
      split: if_splits sum.splits option.splits)

lemma on_attempt_error_Retry_locks:
  "on_attempt_error a sy k m nonce gp s = Retry n' g' s1 \<Longrightarrow>
   tokenProcessing s1 = tokenProcessing s"
  by (auto simp: on_attempt_error_def bump_and_delay_def Let_def
      split: if_splits sum.splits option.splits)

lemma retry_loop_tokenProcessing:
  "retry_loop env sy bal attempt nonce gp s = (r, s') \<Longrightarrow> tokenProcessing s' = tokenProcessing s"
proof (induction env sy bal attempt nonce gp s arbitrary: r s' rule: retry_loop.induct)
  case (1 env sy bal attempt nonce gp s)
  show ?case
  proof (cases "attempt < maxRetries")
    case False
    then have "retries_exhausted sy s = (r, s')"
      using "1.prems" by (simp add: retry_loop_exhausted)
    then show ?thesis by (auto simp: retries_exhausted_def Let_def)
  next
    case True
    obtain res gp1 s1 where ta:
      "try_attempt (attempt_io env (attempt + 1)) sy nonce gp s = (res, gp1, s1)"
      by (cases "try_attempt (attempt_io env (attempt + 1)) sy nonce gp s") auto
    from try_attempt_frame [OF ta] have f1: "tokenProcessing s1 = tokenProcessing s" by simp
    show ?thesis
    proof (cases res)
      case (Inr h)
      then have "attempt_succeeded sy bal h nonce s1 = (r, s')"
        using "1.prems" True ta by (simp add: retry_loop_success)
      then show ?thesis using f1 by (auto simp: attempt_succeeded_def)
    next
      case (Inl m)
      show ?thesis
      proof (cases "on_attempt_error (attempt_io env (attempt + 1)) sy (attempt + 1) m nonce gp1 s1")
        case (Done r2 s2)
        then have "s' = s2"
          using "1.prems" True ta Inl retry_loop_done [of attempt env sy nonce gp s m gp1 s1 r2 s2 bal]
          by simp
        then show ?thesis using on_attempt_error_Done_locks [OF Done] f1
          by simp
      next
        case (Retry n' g' s2)
        then have eq: "retry_loop env sy bal (attempt + 1) n' g' s2 = (r, s')"
          using "1.prems" True ta Inl retry_loop_retry [of attempt env sy nonce gp s m gp1 s1 n' g' s2 bal]
          by simp
        have "tokenProcessing s' = tokenProcessing s2"
          using "1.IH" [OF True ta [symmetric] Inl refl Retry eq] .
        moreover have "tokenProcessing s2 = tokenProcessing s1"
          using Retry by (rule on_attempt_error_Retry_locks)
        ultimately show ?thesis using f1 by simp
      qed
    qed
  qed
qed

lemma transfer_body_tokenProcessing:
  "transfer_body env addr s = (r, s1) \<Longrightarrow> tokenProcessing s1 = tokenProcessing s"
  by (auto simp: transfer_body_def ensure_nonce_def
      split: option.splits sum.splits prod.splits if_splits nat.splits
      dest!: retry_loop_tokenProcessing)

text \<open>
  The two models of \<^verbatim>\<open>transferWithRetry\<close> agree on the lock table: the whole call
  changes it as \<open>transferWithRetry_begin\<close> followed by the release of \<open>settle\<close> does.
\<close>

lemma transferWithRetry_lock_effect:
  "transferWithRetry env a s = (r, s') \<Longrightarrow>
   tokenProcessing s' =
     (if tokenProcessing_get s (toLowerCase a) then tokenProcessing s
      else AList.update (toLowerCase a) False
             (AList.update (toLowerCase a) True (tokenProcessing s)))"
  by (auto simp: transferWithRetry_def Let_def tokenProcessing_set_def
      split: prod.splits if_splits dest!: transfer_body_tokenProcessing)

end
